theory Spec2Isabelle
  imports Main "HOL-Library.Sublist"
begin

section \<open>Bytes, errors and the file store\<close>

text \<open>
  A Go \<^verbatim>\<open>[]byte\<close> and a Go \<^verbatim>\<open>string\<close> are both lists of 8-bit characters here.
  Errors are values: \<^verbatim>\<open>fmt.Errorf(format, args..., err)\<close> with a \<^verbatim>\<open>%w\<close> verb keeps the
  format, the string arguments and the wrapped cause.
\<close>

type_synonym bytes = string

datatype error =
    PathError string string
  | ErrTooLong
  | SyntaxError
  | ErrExist string
  | Errorf string "string list" error

text \<open>The innermost error of a chain of \<^verbatim>\<open>%w\<close> wrappers.\<close>

fun cause :: "error \<Rightarrow> error" where
  "cause (Errorf fmt args e) = cause e"
| "cause e = e"

text \<open>
  An error is an I/O error when its cause comes from the operating system
  (\<^verbatim>\<open>*fs.PathError\<close>, \<^verbatim>\<open>fs.ErrExist\<close>).
\<close>

fun isIOError :: "error \<Rightarrow> bool" where
  "isIOError (PathError opn p) = True"
| "isIOError (ErrExist p) = True"
| "isIOError (Errorf fmt args e) = isIOError e"
| "isIOError ErrTooLong = False"
| "isIOError SyntaxError = False"

text \<open>
  The strings an error message is built from besides its fixed format texts: the path of
  a \<^verbatim>\<open>PathError\<close> and the \<^verbatim>\<open>%s\<close> arguments of each wrapper.
\<close>

fun errorArgs :: "error \<Rightarrow> string list" where
  "errorArgs (PathError opn p) = [p]"
| "errorArgs (ErrExist p) = [p]"
| "errorArgs (Errorf fmt args e) = args @ errorArgs e"
| "errorArgs ErrTooLong = []"
| "errorArgs SyntaxError = []"

text \<open>
  The file store: a path is its list of components (relative to the working directory,
  which is the empty path and always a directory); an entry is a directory or a regular
  file with its contents.
\<close>

datatype entry = Dir | File bytes

type_synonym path = "string list"

type_synonym fsys = "path \<Rightarrow> entry option"

text \<open>\<^verbatim>\<open>strings.Split(s, sep)\<close> for a one-byte separator: never an empty list.\<close>

fun strings_Split :: "string \<Rightarrow> char \<Rightarrow> string list" where
  "strings_Split [] sep = [[]]"
| "strings_Split (c # cs) sep =
     (if c = sep then [] # strings_Split cs sep
      else (case strings_Split cs sep of
              [] \<Rightarrow> [[c]]
            | x # xs \<Rightarrow> (c # x) # xs))"

text \<open>The components of a slash-separated path; empty components are dropped.\<close>

definition splitPath :: "string \<Rightarrow> path" where
  "splitPath p = filter (\<lambda>s. s \<noteq> []) (strings_Split p (CHR ''/''))"

definition isDir :: "fsys \<Rightarrow> path \<Rightarrow> bool" where
  "isDir fs q = (q = [] \<or> fs q = Some Dir)"

text \<open>
  \<^verbatim>\<open>os.Open\<close> followed by reading to the end: the bytes that can be read, and the read
  error that ends them (none at a clean end of file). Opening a missing file fails;
  a directory opens, and its first read fails.
\<close>

type_synonym reader = "bytes \<times> error option"

definition os_Open :: "fsys \<Rightarrow> string \<Rightarrow> error + reader" where
  "os_Open fs p =
     (let q = splitPath p in
      if p = [] then Inl (PathError ''open'' p)
      else if isDir fs q then Inr ([], Some (PathError ''read'' p))
      else (case fs q of
              Some (File data) \<Rightarrow> Inr (data, None)
            | _ \<Rightarrow> Inl (PathError ''open'' p)))"

text \<open>The path names the regular file with contents \<open>data\<close>.\<close>

definition isFile :: "fsys \<Rightarrow> string \<Rightarrow> bytes \<Rightarrow> bool" where
  "isFile fs p data = (splitPath p \<noteq> [] \<and> fs (splitPath p) = Some (File data))"

text \<open>
  \<^verbatim>\<open>os.WriteFile\<close>: creates or truncates the file; fails when the path names a
  directory or its parent is not a directory.
\<close>

definition os_WriteFile :: "fsys \<Rightarrow> string \<Rightarrow> bytes \<Rightarrow> error + fsys" where
  "os_WriteFile fs p data =
     (let q = splitPath p in
      if q = [] \<or> fs q = Some Dir \<or> \<not> isDir fs (butlast q)
      then Inl (PathError ''open'' p)
      else Inr (fs(q := Some (File data))))"

section \<open>The line scanner (bufio.Scanner with ScanLines)\<close>

definition MaxScanTokenSize :: nat where
  "MaxScanTokenSize = 64 * 1024"

definition dropCR :: "bytes \<Rightarrow> bytes" where
  "dropCR data = (if data \<noteq> [] \<and> last data = CHR 0x0D then butlast data else data)"

text \<open>
  The raw lines of the input: the segments between newlines, the newline left out; a last
  segment with no newline is a line when it is not empty.
\<close>

function rawLines :: "bytes \<Rightarrow> bytes list" where
  "rawLines data =
     (if data = [] then []
      else takeWhile (\<lambda>c. c \<noteq> CHR 0x0A) data #
           (case dropWhile (\<lambda>c. c \<noteq> CHR 0x0A) data of
              [] \<Rightarrow> []
            | c # rest \<Rightarrow> rawLines rest))"
  by pat_completeness auto
termination
proof (relation "measure length")
  show "wf (measure length)" by simp
next
  fix data :: bytes and c rest
  assume "dropWhile (\<lambda>c. c \<noteq> CHR 0x0A) data = c # rest"
  then have "length (c # rest) \<le> length data"
    using length_dropWhile_le [of "\<lambda>c. c \<noteq> CHR 0x0A" data] by simp
  then show "(rest, data) \<in> measure length" by simp
qed

declare rawLines.simps [simp del]

text \<open>
  Scanning delivers each line with one trailing carriage return dropped. The scanner's
  buffer holds at most \<open>MaxScanTokenSize\<close> bytes, the newline included: at the first
  line of that many bytes or more it stops with \<^verbatim>\<open>bufio.ErrTooLong\<close>, having delivered the
  lines before it. A read error of the underlying file is reported after the lines read.
\<close>

definition scanTokens :: "bytes \<Rightarrow> bytes list" where
  "scanTokens data = map dropCR (takeWhile (\<lambda>l. length l < MaxScanTokenSize) (rawLines data))"

definition scanErr :: "reader \<Rightarrow> error option" where
  "scanErr rd =
     (if list_ex (\<lambda>l. \<not> length l < MaxScanTokenSize) (rawLines (fst rd)) then Some ErrTooLong
      else snd rd)"

section \<open>The frontmatter codec\<close>

definition FRONTMATTER_BOUNDARY :: string where
  "FRONTMATTER_BOUNDARY = ''------------------''"

text \<open>
  The loop of \<^verbatim>\<open>readFull\<close> over the scanned lines; the state is the boundary counter, the
  frontmatter buffer and the content buffer. Writing to a \<^verbatim>\<open>bytes.Buffer\<close> returns no error,
  so the error returns inside the loop (and those of \<open>addFrontmatter\<close> before its
  \<^verbatim>\<open>os.WriteFile\<close>) are never taken and have no branch here.
\<close>

fun readLoop :: "bytes list \<Rightarrow> nat \<times> bytes \<times> bytes \<Rightarrow> nat \<times> bytes \<times> bytes" where
  "readLoop [] st = st"
| "readLoop (b # bs) (boundaryCount, bufFrontMatter, bufContent) =
     (if b = FRONTMATTER_BOUNDARY \<and> boundaryCount < 2
      then readLoop bs (boundaryCount + 1, bufFrontMatter, bufContent)
      else if boundaryCount < 2
      then readLoop bs (boundaryCount, bufFrontMatter @ b, bufContent)
      else readLoop bs (boundaryCount, bufFrontMatter, bufContent @ b @ [CHR 0x0A]))"

definition readFull :: "fsys \<Rightarrow> string \<Rightarrow> error + (bytes \<times> bytes)" where
  "readFull fs filepath =
     (case os_Open fs filepath of
        Inl err \<Rightarrow> Inl (Errorf ''error opening file: %w'' [] err)
      | Inr f \<Rightarrow>
          (case readLoop (scanTokens (fst f)) (0, [], []) of
             (boundaryCount, bufFrontMatter, bufContent) \<Rightarrow>
               (case scanErr f of
                  Some err \<Rightarrow> Inl (Errorf ''error post reading file: %w'' [] err)
                | None \<Rightarrow> Inr (bufFrontMatter, bufContent))))"

definition addFrontmatter :: "fsys \<Rightarrow> string \<Rightarrow> bytes \<Rightarrow> error + fsys" where
  "addFrontmatter fs filepath data =
     (let buf = (FRONTMATTER_BOUNDARY @ [CHR 0x0A]) @ data @ ([CHR 0x0A] @ FRONTMATTER_BOUNDARY @ [CHR 0x0A]) in
      case os_WriteFile fs filepath buf of
        Inl err \<Rightarrow> Inl (Errorf ''error writing frontmatter to file: %w'' [] err)
      | Inr fs' \<Rightarrow> Inr fs')"

section \<open>Root names\<close>

text \<open>\<^verbatim>\<open>filepath.Split\<close>: the directory up to and with the last slash, and the file name.\<close>

definition filepath_Split :: "string \<Rightarrow> string \<times> string" where
  "filepath_Split p =
     (rev (dropWhile (\<lambda>c. c \<noteq> CHR ''/'') (rev p)), rev (takeWhile (\<lambda>c. c \<noteq> CHR ''/'') (rev p)))"

definition rootName :: "string \<Rightarrow> string" where
  "rootName p = (case filepath_Split p of (d, filename) \<Rightarrow> strings_Split filename (CHR ''.'') ! 0)"

section \<open>JSON syntax (encoding/json)\<close>

datatype json =
    JNull
  | JBool bool
  | JNum string
  | JStr string
  | JArr "json list"
  | JObj "(string \<times> json) list"

datatype token = LBrace | RBrace | LBrack | RBrack | Colon | Comma | TStr string | TWord string

datatype lexmode = Top | InWord string | InStr string | InEsc string | InHex string nat

definition isSpace :: "char \<Rightarrow> bool" where
  "isSpace c = (c = CHR '' '' \<or> c = CHR 0x09 \<or> c = CHR 0x0D \<or> c = CHR 0x0A)"

definition isDigit :: "char \<Rightarrow> bool" where
  "isDigit c = (c \<in> set ''0123456789'')"

definition isHex :: "char \<Rightarrow> bool" where
  "isHex c = (c \<in> set ''0123456789abcdefABCDEF'')"

definition isWordChar :: "char \<Rightarrow> bool" where
  "isWordChar c = (c \<in> set ''0123456789+-.abcdefghijklmnopqrstuvwxyzABCDEFGHIJKLMNOPQRSTUVWXYZ'')"

definition punct :: "char \<Rightarrow> token option" where
  "punct c =
     (if c = CHR ''{'' then Some LBrace
      else if c = CHR ''}'' then Some RBrace
      else if c = CHR ''['' then Some LBrack
      else if c = CHR '']'' then Some RBrack
      else if c = CHR '':'' then Some Colon
      else if c = CHR '','' then Some Comma
      else None)"

definition jemit :: "token \<Rightarrow> token list option \<Rightarrow> token list option" where
  "jemit t r = map_option (\<lambda>ts. t # ts) r"

fun jlex :: "lexmode \<Rightarrow> string \<Rightarrow> token list option" where
  "jlex Top [] = Some []"
| "jlex (InWord w) [] = Some [TWord w]"
| "jlex (InStr s) [] = None"
| "jlex (InEsc s) [] = None"
| "jlex (InHex s k) [] = None"
| "jlex Top (c # cs) =
     (if isSpace c then jlex Top cs
      else if c = CHR 0x22 then jlex (InStr []) cs
      else if isWordChar c then jlex (InWord [c]) cs
      else (case punct c of None \<Rightarrow> None | Some t \<Rightarrow> jemit t (jlex Top cs)))"
| "jlex (InWord w) (c # cs) =
     (if isWordChar c then jlex (InWord (w @ [c])) cs
      else if isSpace c then jemit (TWord w) (jlex Top cs)
      else if c = CHR 0x22 then jemit (TWord w) (jlex (InStr []) cs)
      else (case punct c of None \<Rightarrow> None | Some t \<Rightarrow> jemit (TWord w) (jemit t (jlex Top cs))))"
| "jlex (InStr s) (c # cs) =
     (if c = CHR 0x22 then jemit (TStr s) (jlex Top cs)
      else if c = CHR 0x5C then jlex (InEsc (s @ [c])) cs
      else if (of_char c :: nat) < 0x20 then None
      else jlex (InStr (s @ [c])) cs)"
| "jlex (InEsc s) (c # cs) =
     (if c \<in> set [CHR 0x22, CHR 0x5C, CHR ''/'', CHR ''b'', CHR ''f'', CHR ''n'', CHR ''r'', CHR ''t'']
      then jlex (InStr (s @ [c])) cs
      else if c = CHR ''u'' then jlex (InHex (s @ [c]) 4) cs
      else None)"
| "jlex (InHex s k) (c # cs) =
     (if isHex c then (if k \<le> 1 then jlex (InStr (s @ [c])) cs else jlex (InHex (s @ [c]) (k - 1)) cs)
      else None)"

text \<open>Numbers: an optional minus, an integer part without leading zeros, an optional
  fraction, an optional exponent.\<close>

definition isExp :: "string \<Rightarrow> bool" where
  "isExp r =
     (case r of
        [] \<Rightarrow> True
      | c # r' \<Rightarrow>
          (c = CHR ''e'' \<or> c = CHR ''E'') \<and>
          (let ds = (case r' of [] \<Rightarrow> [] | s # t \<Rightarrow> if s = CHR ''+'' \<or> s = CHR ''-'' then t else r')
           in ds \<noteq> [] \<and> list_all isDigit ds))"

definition isFracExp :: "string \<Rightarrow> bool" where
  "isFracExp r =
     (case r of
        [] \<Rightarrow> True
      | c # r' \<Rightarrow>
          if c = CHR ''.'' then takeWhile isDigit r' \<noteq> [] \<and> isExp (dropWhile isDigit r')
          else isExp r)"

definition isNumber :: "string \<Rightarrow> bool" where
  "isNumber w =
     (let u = (case w of [] \<Rightarrow> [] | c # r \<Rightarrow> if c = CHR ''-'' then r else w);
          ip = takeWhile isDigit u
      in (ip = ''0'' \<or> (ip \<noteq> [] \<and> hd ip \<noteq> CHR ''0'')) \<and> isFracExp (dropWhile isDigit u))"

definition wordValue :: "string \<Rightarrow> json option" where
  "wordValue w =
     (if w = ''true'' then Some (JBool True)
      else if w = ''false'' then Some (JBool False)
      else if w = ''null'' then Some JNull
      else if isNumber w then Some (JNum w)
      else None)"

text \<open>The pushdown parser over tokens: the states of the scanner, and the stack of open
  arrays and objects with the values read so far.\<close>

datatype pstate = BeginValue | BeginValueOrEmpty | BeginStringOrEmpty | BeginString
  | EndKey | EndValue | EndTop json

datatype frame = ArrF "json list" | ObjF "(string \<times> json) list" | ObjK "(string \<times> json) list" string

definition maxNestingDepth :: nat where
  "maxNestingDepth = 10000"

fun jcomplete :: "json \<Rightarrow> frame list \<Rightarrow> (pstate \<times> frame list) option" where
  "jcomplete v [] = Some (EndTop v, [])"
| "jcomplete v (ArrF vs # st) = Some (EndValue, ArrF (vs @ [v]) # st)"
| "jcomplete v (ObjK kvs k # st) = Some (EndValue, ObjF (kvs @ [(k, v)]) # st)"
| "jcomplete v (ObjF kvs # st) = None"

definition jpush :: "pstate \<Rightarrow> frame \<Rightarrow> frame list \<Rightarrow> (pstate \<times> frame list) option" where
  "jpush s f st = (if length st < maxNestingDepth then Some (s, f # st) else None)"

fun beginValue :: "frame list \<Rightarrow> token \<Rightarrow> (pstate \<times> frame list) option" where
  "beginValue st LBrace = jpush BeginStringOrEmpty (ObjF []) st"
| "beginValue st LBrack = jpush BeginValueOrEmpty (ArrF []) st"
| "beginValue st (TStr s) = jcomplete (JStr s) st"
| "beginValue st (TWord w) = (case wordValue w of None \<Rightarrow> None | Some v \<Rightarrow> jcomplete v st)"
| "beginValue st t = None"

fun jstep :: "pstate \<times> frame list \<Rightarrow> token \<Rightarrow> (pstate \<times> frame list) option" where
  "jstep (BeginValue, st) t = beginValue st t"
| "jstep (BeginValueOrEmpty, ArrF vs # st) RBrack = jcomplete (JArr vs) st"
| "jstep (BeginValueOrEmpty, st) t = beginValue st t"
| "jstep (BeginStringOrEmpty, ObjF kvs # st) RBrace = jcomplete (JObj kvs) st"
| "jstep (BeginStringOrEmpty, ObjF kvs # st) (TStr k) = Some (EndKey, ObjK kvs k # st)"
| "jstep (BeginString, ObjF kvs # st) (TStr k) = Some (EndKey, ObjK kvs k # st)"
| "jstep (EndKey, st) Colon = Some (BeginValue, st)"
| "jstep (EndValue, ArrF vs # st) Comma = Some (BeginValue, ArrF vs # st)"
| "jstep (EndValue, ArrF vs # st) RBrack = jcomplete (JArr vs) st"
| "jstep (EndValue, ObjF kvs # st) Comma = Some (BeginString, ObjF kvs # st)"
| "jstep (EndValue, ObjF kvs # st) RBrace = jcomplete (JObj kvs) st"
| "jstep s t = None"

fun jrun :: "pstate \<times> frame list \<Rightarrow> token list \<Rightarrow> json option" where
  "jrun (EndTop v, st) [] = Some v"
| "jrun s [] = None"
| "jrun s (t # ts) = (case jstep s t of None \<Rightarrow> None | Some s' \<Rightarrow> jrun s' ts)"

definition json_decode :: "bytes \<Rightarrow> json option" where
  "json_decode data = (case jlex Top data of None \<Rightarrow> None | Some ts \<Rightarrow> jrun (BeginValue, []) ts)"

section \<open>The data model\<close>

record Paths =
  Blog :: string

record GoogleAnalytics =
  TrackingID :: string

record Link =
  URL :: string
  DisplayText :: string

record Tag =
  Slug :: string
  Layout :: string

record Post =
  Markdown :: bytes
  HTML :: bytes
  Layout :: string
  Title :: string
  Date :: string
  Description :: string
  Tags :: "string list"
  RootName :: string

record Config =
  Title :: string
  Description :: string
  URL :: string
  SpecialLinks :: "Link list"
  Paths :: Paths
  Analytics :: GoogleAnalytics
  Tags :: "Tag list"
  Posts :: "Post list"

text \<open>The zero value of a \<open>Post\<close>, as \<^verbatim>\<open>var post Post\<close> declares it.\<close>

definition zeroPost :: Post where
  "zeroPost = \<lparr>Markdown = [], HTML = [], Post.Layout = [], Post.Title = [], Date = [],
     Post.Description = [], Post.Tags = [], RootName = []\<rparr>"

definition zeroConfig :: Config where
  "zeroConfig = \<lparr>Config.Title = [], Config.Description = [], Config.URL = [], SpecialLinks = [],
     Paths = \<lparr>Blog = []\<rparr>, Analytics = \<lparr>TrackingID = []\<rparr>, Config.Tags = [], Posts = []\<rparr>"

definition MARKDOWN_DIR :: string where
  "MARKDOWN_DIR = ''markdown''"

definition SITE_DIR :: string where
  "SITE_DIR = ''docs''"

text \<open>
  \<^verbatim>\<open>filepath.Join\<close>: the non-empty elements, joined by slashes. The cleaning of the
  result (dot components, repeated slashes) is left out.
\<close>

fun joinElems :: "string list \<Rightarrow> string" where
  "joinElems [] = []"
| "joinElems [x] = x"
| "joinElems (x # y # ys) = x @ CHR ''/'' # joinElems (y # ys)"

definition filepath_Join :: "string list \<Rightarrow> string" where
  "filepath_Join elems = joinElems (filter (\<lambda>e. e \<noteq> []) elems)"

section \<open>Parsing a document\<close>

text \<open>
  \<^verbatim>\<open>json.Unmarshal\<close> checks the syntax of the whole input first and then fills the target
  from the value read; the second step depends on the target's type and is a parameter.
\<close>

definition json_Unmarshal :: "(json \<Rightarrow> 'a \<Rightarrow> error + 'a) \<Rightarrow> bytes \<Rightarrow> 'a \<Rightarrow> error + 'a" where
  "json_Unmarshal dec data v =
     (case json_decode data of
        None \<Rightarrow> Inl SyntaxError
      | Some j \<Rightarrow> dec j v)"

text \<open>
  \<open>parse\<close>; the markdown renderer is the parameter \<open>mdToHTML\<close>. On an error Go's
  \<open>parse\<close> also returns the post built so far, which the callers use for nothing but its
  (still empty) root name.
\<close>

definition parse ::
  "(json \<Rightarrow> Post \<Rightarrow> error + Post) \<Rightarrow> (bytes \<Rightarrow> bytes) \<Rightarrow> fsys \<Rightarrow> string \<Rightarrow> error + Post" where
  "parse dec mdToHTML fs path =
     (case readFull fs path of
        Inl err \<Rightarrow> Inl (Errorf ''error reading post: %s, %w'' [path] err)
      | Inr (metadata, markdown) \<Rightarrow>
          (case json_Unmarshal dec metadata zeroPost of
             Inl err \<Rightarrow> Inl (Errorf ''error unmarshaling metadata: %w'' [] err)
           | Inr post \<Rightarrow>
               Inr (post\<lparr>Markdown := markdown, HTML := mdToHTML markdown, RootName := rootName path\<rparr>)))"

section \<open>Discovery of the posts (generate, "Parse posts")\<close>

text \<open>
  The loop over the file names \<^verbatim>\<open>fs.Glob\<close> found in the posts directory; the list of posts
  is assigned to the configuration only after the loop.
\<close>

fun parsePosts ::
  "(json \<Rightarrow> Post \<Rightarrow> error + Post) \<Rightarrow> (bytes \<Rightarrow> bytes) \<Rightarrow> fsys \<Rightarrow> string \<Rightarrow>
   string list \<Rightarrow> Post list \<Rightarrow> error + Post list" where
  "parsePosts dec mdToHTML fs postsDir [] posts = Inr posts"
| "parsePosts dec mdToHTML fs postsDir (name # names) posts =
     (case parse dec mdToHTML fs (filepath_Join [postsDir, name]) of
        Inl err \<Rightarrow> Inl (Errorf ''error rendering posts: %w'' [] err)
      | Inr post \<Rightarrow> parsePosts dec mdToHTML fs postsDir names (posts @ [post]))"

definition generate_posts ::
  "(json \<Rightarrow> Post \<Rightarrow> error + Post) \<Rightarrow> (bytes \<Rightarrow> bytes) \<Rightarrow> fsys \<Rightarrow> string list \<Rightarrow>
   Config \<Rightarrow> error + Config" where
  "generate_posts dec mdToHTML fs postsFilenames cfg =
     (case parsePosts dec mdToHTML fs (filepath_Join [MARKDOWN_DIR, ''posts'']) postsFilenames [] of
        Inl err \<Rightarrow> Inl err
      | Inr posts \<Rightarrow> Inr (cfg\<lparr>Posts := posts\<rparr>))"

section \<open>Rendering the tag pages\<close>

text \<open>
  The last loop of \<open>generate\<close>, over the tags of the configuration. \<open>render\<close> and
  \<^verbatim>\<open>os.MkdirAll\<close> act on the state \<open>'w\<close> of the output tree and are parameters.
\<close>

fun generate_tags ::
  "(Post \<Rightarrow> string \<Rightarrow> Config \<Rightarrow> Tag \<Rightarrow> 'w \<Rightarrow> error + 'w) \<Rightarrow> (string \<Rightarrow> 'w \<Rightarrow> error + 'w) \<Rightarrow>
   Config \<Rightarrow> Tag list \<Rightarrow> 'w \<Rightarrow> error + 'w" where
  "generate_tags render mkdirAll cfg [] w = Inr w"
| "generate_tags render mkdirAll cfg (t # ts) w =
     (case mkdirAll (filepath_Join [SITE_DIR, ''tagged'', Slug t]) w of
        Inl err \<Rightarrow> Inl (Errorf ''error creating docs/tagged/%s folder: %w'' [Slug t] err)
      | Inr w1 \<Rightarrow>
          (case render (zeroPost\<lparr>Post.Layout := ''tagged'', RootName := Slug t\<rparr>)
                  (filepath_Join [SITE_DIR, ''tagged'', Slug t]) cfg t w1 of
             Inl err \<Rightarrow> Inl (Errorf ''error rendering tags: %w'' [] err)
           | Inr w2 \<Rightarrow> generate_tags render mkdirAll cfg ts w2))"

text \<open>
  The same loop in \<open>format\<close> (main.go), where the site directory is \<^verbatim>\<open>doc\<close> and an error
  ends the process through \<^verbatim>\<open>log.Fatalf\<close>.
\<close>

fun format_tags ::
  "(Post \<Rightarrow> string \<Rightarrow> Config \<Rightarrow> Tag \<Rightarrow> 'w \<Rightarrow> error + 'w) \<Rightarrow> (string \<Rightarrow> 'w \<Rightarrow> error + 'w) \<Rightarrow>
   Config \<Rightarrow> Tag list \<Rightarrow> 'w \<Rightarrow> error + 'w" where
  "format_tags render mkdirAll cfg [] w = Inr w"
| "format_tags render mkdirAll cfg (t # ts) w =
     (case mkdirAll (filepath_Join [''doc'', ''tagged'', Slug t]) w of
        Inl err \<Rightarrow> Inl (Errorf ''error creating site/tagged/%s folder: %v'' [Slug t] err)
      | Inr w1 \<Rightarrow>
          (case render (zeroPost\<lparr>Post.Layout := Tag.Layout t, RootName := Slug t\<rparr>)
                  (filepath_Join [''doc'', ''tagged'', Slug t]) cfg t w1 of
             Inl err \<Rightarrow> Inl (Errorf ''error rendering tags: %v'' [] err)
           | Inr w2 \<Rightarrow> format_tags render mkdirAll cfg ts w2))"

text \<open>A \<open>render\<close> that only records its arguments, to observe the calls of the loop.\<close>

definition recordRender ::
  "Post \<Rightarrow> string \<Rightarrow> Config \<Rightarrow> Tag \<Rightarrow> (Post \<times> string \<times> Tag) list \<Rightarrow> error + (Post \<times> string \<times> Tag) list" where
  "recordRender post destDir cfg tag calls = Inr (calls @ [(post, destDir, tag)])"

definition noMkdir :: "string \<Rightarrow> 'w \<Rightarrow> error + 'w" where
  "noMkdir p w = Inr w"

section \<open>Resetting the output tree\<close>

text \<open>\<^verbatim>\<open>os.RemoveAll\<close>: the path and everything below it; a missing path is no error.\<close>

definition os_RemoveAll :: "fsys \<Rightarrow> string \<Rightarrow> error + fsys" where
  "os_RemoveAll fs p = Inr (\<lambda>q. if prefix (splitPath p) q then None else fs q)"

text \<open>
  \<^verbatim>\<open>os.MkdirAll\<close>: the directory and its missing parents; fails when a component of the
  path is a regular file.
\<close>

definition isRegular :: "fsys \<Rightarrow> path \<Rightarrow> bool" where
  "isRegular fs q = (case fs q of Some (File data) \<Rightarrow> True | _ \<Rightarrow> False)"

definition mkdirAll :: "fsys \<Rightarrow> path \<Rightarrow> error + fsys" where
  "mkdirAll fs q =
     (if list_ex (\<lambda>r. r \<noteq> [] \<and> isRegular fs r) (prefixes q) then Inl (PathError ''mkdir'' (joinElems q))
      else Inr (\<lambda>r. if r \<noteq> [] \<and> prefix r q then Some Dir else fs r))"

definition os_MkdirAll :: "fsys \<Rightarrow> string \<Rightarrow> error + fsys" where
  "os_MkdirAll fs p = mkdirAll fs (splitPath p)"

text \<open>
  \<^verbatim>\<open>os.CopyFS(dir, fsys)\<close> walks the source tree: a directory is made with \<^verbatim>\<open>MkdirAll\<close>, a
  file is created exclusively (an existing destination is \<^verbatim>\<open>fs.ErrExist\<close>) in a directory
  that must exist. The source tree is the list of its entries in the order of the walk,
  each with its path relative to the root; the root itself comes first.
\<close>

fun copyEntries :: "fsys \<Rightarrow> path \<Rightarrow> (path \<times> entry) list \<Rightarrow> error + fsys" where
  "copyEntries fs dir [] = Inr fs"
| "copyEntries fs dir ((rel, Dir) # rest) =
     (case mkdirAll fs (dir @ rel) of
        Inl err \<Rightarrow> Inl err
      | Inr fs' \<Rightarrow> copyEntries fs' dir rest)"
| "copyEntries fs dir ((rel, File data) # rest) =
     (if fs (dir @ rel) \<noteq> None then Inl (ErrExist (joinElems (dir @ rel)))
      else if rel = [] \<or> \<not> isDir fs (butlast (dir @ rel)) then Inl (PathError ''open'' (joinElems (dir @ rel)))
      else copyEntries (fs(dir @ rel := Some (File data))) dir rest)"

definition os_CopyFS :: "fsys \<Rightarrow> string \<Rightarrow> (path \<times> entry) list \<Rightarrow> error + fsys" where
  "os_CopyFS fs dir fsys = copyEntries fs (splitPath dir) (([], Dir) # fsys)"

definition reset :: "(path \<times> entry) list \<Rightarrow> fsys \<Rightarrow> error + fsys" where
  "reset assetsEFS fs =
     (case os_RemoveAll fs SITE_DIR of
        Inl err \<Rightarrow> Inl (Errorf ''error deleting old docs/ folder to create new one: %w'' [] err)
      | Inr fs1 \<Rightarrow>
     (case os_MkdirAll fs1 (filepath_Join [SITE_DIR, ''blog'']) of
        Inl err \<Rightarrow> Inl (Errorf ''error creating docs/blog folder: %w'' [] err)
      | Inr fs2 \<Rightarrow>
     (case os_MkdirAll fs2 (filepath_Join [SITE_DIR, ''tagged'']) of
        Inl err \<Rightarrow> Inl (Errorf ''error creating docs/tagged folder: %w'' [] err)
      | Inr fs3 \<Rightarrow>
     (case os_CopyFS fs3 SITE_DIR assetsEFS of
        Inl err \<Rightarrow> Inl (Errorf ''error copying docs/assets folder: %w'' [] err)
      | Inr fs4 \<Rightarrow> Inr fs4))))"

section \<open>Markdown to HTML\<close>

text \<open>
  The syntax tree of the markdown library: a code block with its literal text, any other
  leaf, and any container with its children (the document is one).
\<close>

datatype node = CodeBlock bytes | Leaf string bytes | Container string "node list"

datatype WalkStatus = GoToNext | SkipChildren | Terminate

definition renderCodeBlock :: "bytes \<Rightarrow> bytes \<Rightarrow> bool \<Rightarrow> bytes" where
  "renderCodeBlock w literal entering =
     (if entering
      then w @ ''<div class='' @ [CHR 0x27] @ ''highlight'' @ [CHR 0x27] @ ''><pre class='' @ [CHR 0x27] @
           ''highlight'' @ [CHR 0x27] @ ''><code>'' @ literal @ ''</code></pre></div>''
      else w)"

fun myRenderHook :: "bytes \<Rightarrow> node \<Rightarrow> bool \<Rightarrow> bytes \<times> WalkStatus \<times> bool" where
  "myRenderHook w (CodeBlock literal) entering = (renderCodeBlock w literal entering, GoToNext, True)"
| "myRenderHook w n entering = (w, GoToNext, False)"

text \<open>
  The renderer of the library asks the hook first, and renders the node itself only when
  the hook did not handle it. Its own rendering is the parameter \<open>dflt\<close>: from the
  renderer's state and the node, the bytes it writes, the status for the walk and its
  new state. The writer can only be appended to.
\<close>

definition RenderNode ::
  "('s \<Rightarrow> node \<Rightarrow> bool \<Rightarrow> bytes \<times> WalkStatus \<times> 's) \<Rightarrow> 's \<times> bytes \<Rightarrow> node \<Rightarrow> bool \<Rightarrow>
   ('s \<times> bytes) \<times> WalkStatus" where
  "RenderNode dflt sw n entering =
     (case sw of (s, w) \<Rightarrow>
        (case myRenderHook w n entering of
           (w', status, didHandle) \<Rightarrow>
             if didHandle then ((s, w'), status)
             else (case dflt s n entering of
                     (out, status', s') \<Rightarrow> ((s', w' @ out), status'))))"

text \<open>
  \<^verbatim>\<open>ast.Walk\<close>: the node is visited on entering; the children of a container follow unless
  the visit said to skip them; a container is visited again on leaving; \<open>Terminate\<close>
  stops the walk (a container that terminates on entering is still closed).
\<close>

fun walk :: "('a \<Rightarrow> node \<Rightarrow> bool \<Rightarrow> 'a \<times> WalkStatus) \<Rightarrow> 'a \<Rightarrow> node \<Rightarrow> 'a \<times> WalkStatus"
  and walkChildren :: "('a \<Rightarrow> node \<Rightarrow> bool \<Rightarrow> 'a \<times> WalkStatus) \<Rightarrow> 'a \<Rightarrow> node list \<Rightarrow> 'a \<times> WalkStatus" where
  "walk visit w (Container kind children) =
     (case visit w (Container kind children) True of
        (w1, status) \<Rightarrow>
          if status = Terminate then (fst (visit w1 (Container kind children) False), Terminate)
          else (case (if status = SkipChildren then (w1, GoToNext) else walkChildren visit w1 children) of
                  (w2, status2) \<Rightarrow>
                    if status2 = Terminate then (w2, Terminate)
                    else (case visit w2 (Container kind children) False of
                            (w3, status3) \<Rightarrow>
                              if status3 = Terminate then (w3, Terminate) else (w3, GoToNext))))"
| "walk visit w (CodeBlock literal) =
     (case visit w (CodeBlock literal) True of
        (w1, status) \<Rightarrow> if status = Terminate then (w1, Terminate) else (w1, GoToNext))"
| "walk visit w (Leaf kind literal) =
     (case visit w (Leaf kind literal) True of
        (w1, status) \<Rightarrow> if status = Terminate then (w1, Terminate) else (w1, GoToNext))"
| "walkChildren visit w [] = (w, GoToNext)"
| "walkChildren visit w (n # ns) =
     (case walk visit w n of
        (w1, status) \<Rightarrow> if status = Terminate then (w1, Terminate) else walkChildren visit w1 ns)"

text \<open>
  \<open>mdToHTML\<close>: the parser of the library (with the extensions the source selects) is the
  parameter \<open>mdparse\<close>; \<^verbatim>\<open>markdown.Render\<close> walks the document with the customized
  renderer, from its initial state \<open>s0\<close> and an empty buffer (there is no page header or
  footer under \<^verbatim>\<open>html.CommonFlags\<close>).
\<close>

definition mdToHTML ::
  "(bytes \<Rightarrow> node) \<Rightarrow> ('s \<Rightarrow> node \<Rightarrow> bool \<Rightarrow> bytes \<times> WalkStatus \<times> 's) \<Rightarrow> 's \<Rightarrow> bytes \<Rightarrow> bytes" where
  "mdToHTML mdparse dflt s0 md = snd (fst (walk (RenderNode dflt) (s0, []) (mdparse md)))"

section \<open>Auxiliary notions for the round trip\<close>

text \<open>
  \<open>dropsNewlines s s'\<close>: \<open>s'\<close> is \<open>s\<close> with some of its newlines and carriage returns deleted.
  \<open>wellsep ts\<close>: no two number or literal tokens stand next to each other.
\<close>

inductive dropsNewlines :: "string \<Rightarrow> string \<Rightarrow> bool" where
  dropsNil: "dropsNewlines [] []"
| dropsKeep: "dropsNewlines xs ys \<Longrightarrow> dropsNewlines (c # xs) (c # ys)"
| dropsDrop: "c = CHR 0x0A \<or> c = CHR 0x0D \<Longrightarrow> dropsNewlines xs ys \<Longrightarrow> dropsNewlines (c # xs) ys"

fun isWord :: "token \<Rightarrow> bool" where
  "isWord (TWord w) = True"
| "isWord t = False"

fun wellsep :: "token list \<Rightarrow> bool" where
  "wellsep [] = True"
| "wellsep [t] = True"
| "wellsep (t # u # ts) = (\<not> (isWord t \<and> isWord u) \<and> wellsep (u # ts))"

text \<open>The bytes the decoder returns as metadata for frontmatter \<open>data\<close>.\<close>

definition joined :: "bytes \<Rightarrow> bytes" where
  "joined data = concat (map dropCR (strings_Split data (CHR 0x0A)))"

text \<open>A line as long as the scanner's buffer.\<close>

definition longLine :: bytes where
  "longLine = replicate MaxScanTokenSize (CHR ''a'')"

section \<open>Properties of the scanner\<close>

lemma strings_Split_nonempty: "strings_Split s c \<noteq> []"
  by (induction s) (auto split: list.splits)

lemma strings_Split_0: "strings_Split s c ! 0 = takeWhile (\<lambda>x. x \<noteq> c) s"
  by (induction s) (auto split: list.splits simp: strings_Split_nonempty)

lemma rawLines_Nil: "rawLines [] = []"
  by (simp add: rawLines.simps)

lemma rawLines_line:
  assumes "CHR 0x0A \<notin> set l"
  shows "rawLines (l @ CHR 0x0A # rest) = l # rawLines rest"
proof -
  have t: "takeWhile (\<lambda>c. c \<noteq> CHR 0x0A) (l @ CHR 0x0A # rest) = l"
    using assms by (induction l) auto
  have d: "dropWhile (\<lambda>c. c \<noteq> CHR 0x0A) (l @ CHR 0x0A # rest) = CHR 0x0A # rest"
    using assms by (induction l) auto
  show ?thesis
    by (subst rawLines.simps) (simp add: t d)
qed

lemma rawLines_last:
  assumes "CHR 0x0A \<notin> set l" and "l \<noteq> []"
  shows "rawLines l = [l]"
proof -
  have t: "takeWhile (\<lambda>c. c \<noteq> CHR 0x0A) l = l"
    using assms(1) by (induction l) auto
  have d: "dropWhile (\<lambda>c. c \<noteq> CHR 0x0A) l = []"
    using assms(1) by (induction l) auto
  show ?thesis
    by (subst rawLines.simps) (simp add: t d assms)
qed

lemma rawLines_terminated:
  assumes "\<forall>l\<in>set ls. CHR 0x0A \<notin> set l"
  shows "rawLines (concat (map (\<lambda>l. l @ [CHR 0x0A]) ls) @ rest) = ls @ rawLines rest"
  using assms
proof (induction ls)
  case Nil
  then show ?case by simp
next
  case (Cons l ls)
  then have "rawLines (l @ CHR 0x0A # (concat (map (\<lambda>l. l @ [CHR 0x0A]) ls) @ rest))
      = l # rawLines (concat (map (\<lambda>l. l @ [CHR 0x0A]) ls) @ rest)"
    by (intro rawLines_line) simp
  with Cons show ?case by simp
qed

lemma scanTokens_short:
  assumes "\<forall>l\<in>set (rawLines data). length l < MaxScanTokenSize"
  shows "scanTokens data = map dropCR (rawLines data)"
proof -
  have "takeWhile (\<lambda>l. length l < MaxScanTokenSize) (rawLines data) = rawLines data"
    using assms by (simp add: takeWhile_eq_all_conv)
  then show ?thesis by (simp only: scanTokens_def)
qed

lemma scanErr_short:
  assumes "\<forall>l\<in>set (rawLines data). length l < MaxScanTokenSize"
  shows "scanErr (data, None) = None"
  using assms by (auto simp: scanErr_def list_ex_iff)

lemma scanErr_long:
  assumes "l \<in> set (rawLines data)" and "MaxScanTokenSize \<le> length l"
  shows "scanErr (data, r) = Some ErrTooLong"
  using assms by (auto simp: scanErr_def list_ex_iff)

section \<open>Properties of the decode loop\<close>

lemma readLoop_append: "readLoop (xs @ ys) st = readLoop ys (readLoop xs st)"
  by (induction xs st rule: readLoop.induct) auto

lemma readLoop_body:
  "2 \<le> n \<Longrightarrow> readLoop ls (n, m, c) = (n, m, c @ concat (map (\<lambda>l. l @ [CHR 0x0A]) ls))"
  by (induction ls arbitrary: c) auto

lemma readLoop_metadata:
  "n < 2 \<Longrightarrow> FRONTMATTER_BOUNDARY \<notin> set ls \<Longrightarrow> readLoop ls (n, m, c) = (n, m @ concat ls, c)"
  by (induction ls arbitrary: m) auto

lemma readLoop_few_boundaries:
  "n + count_list ls FRONTMATTER_BOUNDARY < 2 \<Longrightarrow>
   readLoop ls (n, m, c) =
     (n + count_list ls FRONTMATTER_BOUNDARY,
      m @ concat (filter (\<lambda>l. l \<noteq> FRONTMATTER_BOUNDARY) ls), c)"
  by (induction ls arbitrary: n m) auto

lemma readFull_isFile:
  assumes "isFile fs p data"
  shows "readFull fs p =
     (case scanErr (data, None) of
        Some err \<Rightarrow> Inl (Errorf ''error post reading file: %w'' [] err)
      | None \<Rightarrow> Inr (snd (readLoop (scanTokens data) (0, [], []))))"
proof -
  from assms have q: "splitPath p \<noteq> []" and f: "fs (splitPath p) = Some (File data)"
    by (simp_all add: isFile_def)
  from q have "p \<noteq> []" by (auto simp: splitPath_def)
  with q f have "os_Open fs p = Inr (data, None)"
    by (simp add: os_Open_def isDir_def)
  then show ?thesis
    by (simp add: readFull_def split: prod.splits option.splits)
qed

lemma boundary_plain:
  "CHR 0x0A \<notin> set FRONTMATTER_BOUNDARY"
  "length FRONTMATTER_BOUNDARY < MaxScanTokenSize"
  "dropCR FRONTMATTER_BOUNDARY = FRONTMATTER_BOUNDARY"
  by (simp_all add: FRONTMATTER_BOUNDARY_def MaxScanTokenSize_def dropCR_def)

lemma dropCR_no_CR: "CHR 0x0D \<notin> set l \<Longrightarrow> dropCR l = l"
  by (cases l rule: rev_cases) (auto simp: dropCR_def)

lemma concat_dropCR_no_CR:
  assumes "\<forall>l\<in>set ms. CHR 0x0A \<notin> set l \<and> CHR 0x0D \<notin> set l"
  shows "concat (map dropCR ms) = filter (\<lambda>c. c \<noteq> CHR 0x0A) (concat (map (\<lambda>l. l @ [CHR 0x0A]) ms))"
  using assms
proof (induction ms)
  case Nil
  then show ?case by simp
next
  case (Cons l ms)
  then have l: "CHR 0x0A \<notin> set l" "CHR 0x0D \<notin> set l" by simp_all
  from l(2) have "dropCR l = l" by (rule dropCR_no_CR)
  moreover from l(1) have "filter (\<lambda>c. c \<noteq> CHR 0x0A) l = l" by (induction l) auto
  ultimately show ?case using Cons by simp
qed

lemma example_rawLines:
  \<open>rawLines ''------------------\<newline>{"title":"A"}\<newline>------------------\<newline>Body text\<newline>''
     = [''------------------'', ''{"title":"A"}'', ''------------------'', ''Body text'']\<close>
  by (simp add: rawLines.simps)

section \<open>Properties of the JSON syntax\<close>

lemma wellsep_tl: "wellsep (t # ts) \<Longrightarrow> wellsep ts"
  by (cases ts) auto

lemma wellsep_hd: "wellsep (TWord w # ts) \<Longrightarrow> ts = [] \<or> \<not> isWord (hd ts)"
  by (cases ts) auto

lemma space_facts:
  "isSpace c \<Longrightarrow> \<not> isWordChar c"
  "isSpace c \<Longrightarrow> c \<noteq> CHR 0x22"
  "isSpace c \<Longrightarrow> punct c = None"
  by (auto simp: isSpace_def isWordChar_def punct_def)

lemma word_facts:
  "isWordChar c \<Longrightarrow> c \<noteq> CHR 0x22"
  "isWordChar c \<Longrightarrow> punct c = None"
  by (auto simp: isWordChar_def punct_def)

lemma punct_quote: "punct (CHR 0x22) = None"
  by (simp add: punct_def)

lemma newline_facts:
  assumes "c = CHR 0x0A \<or> c = CHR 0x0D"
  shows "isSpace c" "c \<noteq> CHR 0x22" "c \<noteq> CHR 0x5C" "(of_char c :: nat) < 0x20"
    "\<not> isHex c" "c \<noteq> CHR ''u''"
    "c \<notin> set [CHR 0x22, CHR 0x5C, CHR ''/'', CHR ''b'', CHR ''f'', CHR ''n'', CHR ''r'', CHR ''t'']"
  using assms by (auto simp: isSpace_def isHex_def)

lemma jlex_InWord_starts: "jlex (InWord w) s = Some ts \<Longrightarrow> ts \<noteq> [] \<and> isWord (hd ts)"
  by (induction s arbitrary: w) (auto simp: jemit_def split: if_splits option.splits)

lemma jlex_after_word:
  assumes "jlex Top ys = Some ts" and "ts = [] \<or> \<not> isWord (hd ts)"
  shows "jlex (InWord w) ys = Some (TWord w # ts)"
proof (cases ys)
  case Nil
  with assms show ?thesis by simp
next
  case (Cons c cs)
  show ?thesis
  proof (cases "isWordChar c")
    case True
    with assms(1) Cons have "jlex (InWord [c]) cs = Some ts"
      by (simp add: space_facts word_facts split: if_splits)
    from jlex_InWord_starts [OF this] assms(2) show ?thesis by simp
  next
    case False
    with assms(1) Cons show ?thesis
      by (auto simp: jemit_def space_facts punct_quote split: if_splits option.splits)
  qed
qed

lemma jlex_del:
  "dropsNewlines s s' \<Longrightarrow> jlex m s = Some ts \<Longrightarrow> wellsep ts \<Longrightarrow> jlex m s' = Some ts"
proof (induction arbitrary: m ts rule: dropsNewlines.induct)
  case dropsNil
  then show ?case by simp
next
  case (dropsKeep xs ys c)
  show ?case
  proof (cases m)
    case Top
    with dropsKeep.prems dropsKeep.IH show ?thesis
      by (auto simp: jemit_def split: if_splits option.splits dest: wellsep_tl)
  next
    case (InWord w)
    with dropsKeep.prems dropsKeep.IH show ?thesis
      by (auto simp: jemit_def split: if_splits option.splits dest!: wellsep_tl)
  next
    case (InStr x3)
    with dropsKeep.prems dropsKeep.IH show ?thesis
      by (auto simp: jemit_def split: if_splits option.splits dest: wellsep_tl)
  next
    case (InEsc x4)
    with dropsKeep.prems dropsKeep.IH show ?thesis
      by (auto simp: jemit_def split: if_splits option.splits dest: wellsep_tl)
  next
    case (InHex x51 x52)
    with dropsKeep.prems dropsKeep.IH show ?thesis
      by (auto simp: jemit_def split: if_splits option.splits dest: wellsep_tl)
  qed
next
  case (dropsDrop c xs ys)
  note nl = newline_facts [OF dropsDrop.hyps(1)]
  show ?case
  proof (cases m)
    case Top
    with dropsDrop.prems nl(1) have "jlex Top xs = Some ts" by simp
    with dropsDrop.IH dropsDrop.prems(2) Top show ?thesis by simp
  next
    case (InWord w)
    with dropsDrop.prems(1) nl(1) obtain ts' where ts: "ts = TWord w # ts'" and l: "jlex Top xs = Some ts'"
      by (auto simp: jemit_def space_facts)
    from dropsDrop.prems(2) ts have w: "wellsep ts'" and h: "ts' = [] \<or> \<not> isWord (hd ts')"
      by (auto dest: wellsep_tl wellsep_hd)
    from dropsDrop.IH [OF l w] have "jlex Top ys = Some ts'" .
    from jlex_after_word [OF this h] ts InWord show ?thesis by simp
  next
    case (InStr x3)
    with dropsDrop.prems(1) nl show ?thesis by simp
  next
    case (InEsc x4)
    with dropsDrop.prems(1) nl show ?thesis by simp
  next
    case (InHex x51 x52)
    with dropsDrop.prems(1) nl show ?thesis by simp
  qed
qed

lemma jcomplete_state:
  "jcomplete v st = Some (s', st') \<Longrightarrow> s' = EndValue \<or> (\<exists>u. s' = EndTop u)"
  by (cases "(v, st)" rule: jcomplete.cases) auto

lemma jstep_word_twice:
  assumes "jstep s (TWord a) = Some s'"
  shows "jstep s' (TWord b) = None"
proof -
  obtain q st where s: "s = (q, st)" by (cases s)
  obtain q' st' where s': "s' = (q', st')" by (cases s')
  from assms s s' have "\<exists>v. jcomplete v st = Some (q', st')"
    by (cases "(s, TWord a)" rule: jstep.cases) (auto split: option.splits)
  then have "q' = EndValue \<or> (\<exists>u. q' = EndTop u)"
    using jcomplete_state by blast
  then show ?thesis
    using s' by (cases st') (auto split: frame.splits)
qed

lemma jrun_wellsep: "jrun s ts = Some v \<Longrightarrow> wellsep ts"
proof (induction ts arbitrary: s rule: wellsep.induct)
  case 1
  then show ?case by simp
next
  case (2 t)
  then show ?case by simp
next
  case (3 t u ts)
  from "3.prems" obtain s' where s': "jstep s t = Some s'" and r: "jrun s' (u # ts) = Some v"
    by (cases s) (auto split: option.splits)
  from "3.IH" [OF r] have w: "wellsep (u # ts)" .
  have "\<not> (isWord t \<and> isWord u)"
  proof
    assume "isWord t \<and> isWord u"
    then obtain a b where "t = TWord a" "u = TWord b"
      by (cases t; cases u) auto
    with s' jstep_word_twice [of s a s' b] have "jstep s' u = None" by simp
    with r show False by (cases s') simp
  qed
  with w show ?case by simp
qed

lemma jrun_words_valid:
  "jrun s ts = Some v \<Longrightarrow> TWord w \<in> set ts \<Longrightarrow> wordValue w \<noteq> None"
proof (induction ts arbitrary: s)
  case Nil
  then show ?case by simp
next
  case (Cons t ts)
  from Cons.prems(1) obtain s' where s': "jstep s t = Some s'" and r: "jrun s' ts = Some v"
    by (cases s) (auto split: option.splits)
  show ?case
  proof (cases "t = TWord w")
    case True
    with s' show ?thesis
      by (cases "(s, t)" rule: jstep.cases) (auto split: option.splits)
  next
    case False
    with Cons.prems(2) have "TWord w \<in> set ts" by simp
    from Cons.IH [OF r this] show ?thesis .
  qed
qed

lemma dropCR_Cons: "x \<noteq> [] \<Longrightarrow> dropCR (c # x) = c # dropCR x"
  by (simp add: dropCR_def)

lemma dropsNewlines_joined: "dropsNewlines data (joined data)"
proof (induction data)
  case Nil
  show ?case by (simp add: joined_def dropCR_def dropsNil)
next
  case (Cons c cs)
  obtain x xs where sp: "strings_Split cs (CHR 0x0A) = x # xs"
    using strings_Split_nonempty [of cs "CHR 0x0A"] by (cases "strings_Split cs (CHR 0x0A)") auto
  show ?case
  proof (cases "c = CHR 0x0A")
    case True
    then have "joined (c # cs) = joined cs"
      by (simp add: joined_def dropCR_def)
    with True Cons show ?thesis by (simp add: dropsDrop)
  next
    case False
    show ?thesis
    proof (cases "x = [] \<and> c = CHR 0x0D")
      case True
      with False sp have "joined (c # cs) = joined cs"
        by (simp add: joined_def dropCR_def)
      with True Cons show ?thesis by (simp add: dropsDrop)
    next
      case False2: False
      have "dropCR (c # x) = c # dropCR x"
      proof (cases "x = []")
        case True
        with False2 show ?thesis by (simp add: dropCR_def)
      next
        case False
        then show ?thesis by (rule dropCR_Cons)
      qed
      with False sp have "joined (c # cs) = c # joined cs"
        by (simp add: joined_def)
      with Cons show ?thesis by (simp add: dropsKeep)
    qed
  qed
qed

lemma json_decode_joined:
  assumes "json_decode data = Some M"
  shows "json_decode (joined data) = Some M"
proof -
  from assms obtain ts where l: "jlex Top data = Some ts" and r: "jrun (BeginValue, []) ts = Some M"
    by (auto simp: json_decode_def split: option.splits)
  from jrun_wellsep [OF r] have "wellsep ts" .
  from jlex_del [OF dropsNewlines_joined l this] have "jlex Top (joined data) = Some ts" .
  with r show ?thesis by (simp add: json_decode_def)
qed

lemma rawLines_Cons:
  assumes "c \<noteq> CHR 0x0A" and "s \<noteq> []"
  shows "rawLines (c # s) = (c # hd (rawLines s)) # tl (rawLines s)"
  using assms by (simp add: rawLines.simps [of "c # s"] rawLines.simps [of s])

lemma rawLines_split:
  "rawLines (data @ CHR 0x0A # rest) = strings_Split data (CHR 0x0A) @ rawLines rest"
proof (induction data)
  case Nil
  show ?case using rawLines_line [of "[]" rest] by simp
next
  case (Cons c cs)
  show ?case
  proof (cases "c = CHR 0x0A")
    case True
    with Cons show ?thesis using rawLines_line [of "[]" "cs @ CHR 0x0A # rest"] by simp
  next
    case False
    obtain x xs where sp: "strings_Split cs (CHR 0x0A) = x # xs"
      using strings_Split_nonempty [of cs "CHR 0x0A"] by (cases "strings_Split cs (CHR 0x0A)") auto
    from False have "rawLines (c # (cs @ CHR 0x0A # rest))
        = (c # hd (rawLines (cs @ CHR 0x0A # rest))) # tl (rawLines (cs @ CHR 0x0A # rest))"
      by (intro rawLines_Cons) simp_all
    with Cons sp False show ?thesis by simp
  qed
qed

lemma jlex_word_run:
  "list_all isWordChar u \<Longrightarrow> jlex (InWord w) (u @ r) = jlex (InWord (w @ u)) r"
  by (induction u arbitrary: w) auto

lemma jlex_step_subset:
  "jlex m (c # cs) = Some ts \<Longrightarrow> \<exists>m' ts'. jlex m' cs = Some ts' \<and> set ts' \<subseteq> set ts"
  by (cases m) (fastforce simp: jemit_def split: if_splits option.splits)+

lemma jlex_newline_Top:
  "jlex m (CHR 0x0A # cs) = Some ts \<Longrightarrow> \<exists>ts'. jlex Top cs = Some ts' \<and> set ts' \<subseteq> set ts"
  using newline_facts [of "CHR 0x0A"]
  by (cases m) (auto simp: jemit_def space_facts split: if_splits option.splits)

lemma boundary_words: "list_all isWordChar FRONTMATTER_BOUNDARY"
  by (simp add: FRONTMATTER_BOUNDARY_def isWordChar_def)

lemma boundary_no_value: "wordValue FRONTMATTER_BOUNDARY = None"
  by (simp add: wordValue_def FRONTMATTER_BOUNDARY_def isNumber_def isDigit_def)

lemma dropCR_eq:
  assumes "dropCR seg = b"
  shows "seg = b \<or> seg = b @ [CHR 0x0D]"
proof (cases "seg \<noteq> [] \<and> last seg = CHR 0x0D")
  case True
  with assms have "butlast seg = b" by (simp add: dropCR_def)
  with True show ?thesis using append_butlast_last_id [of seg] by auto
next
  case False
  with assms show ?thesis by (auto simp: dropCR_def)
qed

lemma jlex_boundary_first:
  assumes "jlex Top cs = Some ts"
    and "dropCR (takeWhile (\<lambda>c. c \<noteq> CHR 0x0A) cs) = FRONTMATTER_BOUNDARY"
  shows "TWord FRONTMATTER_BOUNDARY \<in> set ts"
proof -
  let ?B = FRONTMATTER_BOUNDARY
  define seg where "seg = takeWhile (\<lambda>c. c \<noteq> CHR 0x0A) cs"
  define post where "post = dropWhile (\<lambda>c. c \<noteq> CHR 0x0A) cs"
  have cs: "cs = seg @ post" by (simp add: seg_def post_def)
  have post: "post = [] \<or> hd post = CHR 0x0A"
    using hd_dropWhile [of "\<lambda>c. c \<noteq> CHR 0x0A" cs] by (auto simp: post_def)
  from assms(2) have "seg = ?B \<or> seg = ?B @ [CHR 0x0D]"
    unfolding seg_def by (rule dropCR_eq)
  then obtain r where r: "cs = ?B @ r" and r': "r = [] \<or> isSpace (hd r)"
    using cs post by (auto simp: isSpace_def)
  obtain b bs where B: "?B = b # bs" and bw: "isWordChar b" and bsw: "list_all isWordChar bs"
    using boundary_words by (cases ?B) (auto simp: FRONTMATTER_BOUNDARY_def)
  have "jlex Top cs = jlex Top ((b # bs) @ r)"
    unfolding r B ..
  also have "\<dots> = jlex (InWord [b]) (bs @ r)"
    using bw space_facts(1) [of b] by (auto simp: word_facts)
  also have "\<dots> = jlex (InWord (b # bs)) r"
    using jlex_word_run [OF bsw, of "[b]" r] by simp
  also have "\<dots> = jlex (InWord ?B) r"
    unfolding B ..
  finally have l: "jlex (InWord ?B) r = Some ts" using assms(1) by simp
  show ?thesis
  proof (cases r)
    case Nil
    with l have "ts = [TWord ?B]" by simp
    then show ?thesis by simp
  next
    case (Cons c r2)
    with r' have "isSpace c" by simp
    with l Cons have "\<exists>ts'. ts = TWord ?B # ts'" by (auto simp: jemit_def space_facts)
    then show ?thesis by auto
  qed
qed

lemma hd_strings_Split: "hd (strings_Split s c) = takeWhile (\<lambda>x. x \<noteq> c) s"
  using strings_Split_0 [of s c] strings_Split_nonempty [of s c]
  by (simp add: hd_conv_nth)

lemma jlex_boundary_later:
  "jlex m data = Some ts \<Longrightarrow> seg \<in> set (tl (strings_Split data (CHR 0x0A))) \<Longrightarrow>
   dropCR seg = FRONTMATTER_BOUNDARY \<Longrightarrow> TWord FRONTMATTER_BOUNDARY \<in> set ts"
proof (induction data arbitrary: m ts)
  case Nil
  then show ?case by simp
next
  case (Cons c cs)
  obtain x xs where sp: "strings_Split cs (CHR 0x0A) = x # xs"
    using strings_Split_nonempty [of cs "CHR 0x0A"] by (cases "strings_Split cs (CHR 0x0A)") auto
  show ?case
  proof (cases "c = CHR 0x0A")
    case True
    with Cons.prems(1) obtain ts' where l: "jlex Top cs = Some ts'" and sub: "set ts' \<subseteq> set ts"
      using jlex_newline_Top by blast
    from True Cons.prems(2) sp have "seg = x \<or> seg \<in> set (tl (strings_Split cs (CHR 0x0A)))"
      by auto
    then have "TWord FRONTMATTER_BOUNDARY \<in> set ts'"
    proof
      assume "seg = x"
      with sp have "seg = takeWhile (\<lambda>c. c \<noteq> CHR 0x0A) cs"
        using hd_strings_Split [of cs "CHR 0x0A"] by simp
      with Cons.prems(3) jlex_boundary_first [OF l] show ?thesis by simp
    next
      assume "seg \<in> set (tl (strings_Split cs (CHR 0x0A)))"
      from Cons.IH [OF l this Cons.prems(3)] show ?thesis .
    qed
    with sub show ?thesis by auto
  next
    case False
    from Cons.prems(1) obtain m' ts' where l: "jlex m' cs = Some ts'" and sub: "set ts' \<subseteq> set ts"
      using jlex_step_subset by blast
    from False Cons.prems(2) sp have "seg \<in> set (tl (strings_Split cs (CHR 0x0A)))"
      by simp
    from Cons.IH [OF l this Cons.prems(3)] sub show ?thesis by auto
  qed
qed

lemma json_no_boundary_line:
  assumes "json_decode data = Some M" and "seg \<in> set (strings_Split data (CHR 0x0A))"
  shows "dropCR seg \<noteq> FRONTMATTER_BOUNDARY"
proof
  assume b: "dropCR seg = FRONTMATTER_BOUNDARY"
  from assms(1) obtain ts where l: "jlex Top data = Some ts" and r: "jrun (BeginValue, []) ts = Some M"
    by (auto simp: json_decode_def split: option.splits)
  from assms(2) have "seg = hd (strings_Split data (CHR 0x0A)) \<or> seg \<in> set (tl (strings_Split data (CHR 0x0A)))"
    using strings_Split_nonempty [of data "CHR 0x0A"]
    by (cases "strings_Split data (CHR 0x0A)") auto
  then have "TWord FRONTMATTER_BOUNDARY \<in> set ts"
  proof
    assume "seg = hd (strings_Split data (CHR 0x0A))"
    with b jlex_boundary_first [OF l] show ?thesis by (simp add: hd_strings_Split)
  next
    assume "seg \<in> set (tl (strings_Split data (CHR 0x0A)))"
    from jlex_boundary_later [OF l this b] show ?thesis .
  qed
  from jrun_words_valid [OF r this] boundary_no_value show False by simp
qed

section \<open>Properties of the codec\<close>

lemma addFrontmatter_isFile:
  assumes "addFrontmatter fs p data = Inr fs'"
  shows "isFile fs' p (FRONTMATTER_BOUNDARY @ [CHR 0x0A] @ data @ [CHR 0x0A] @ FRONTMATTER_BOUNDARY @ [CHR 0x0A])"
  using assms
  by (auto simp: addFrontmatter_def os_WriteFile_def isFile_def Let_def split: if_splits sum.splits)

lemma readFull_framed:
  assumes isf: "isFile fs p (FRONTMATTER_BOUNDARY @ [CHR 0x0A] @ data @ [CHR 0x0A] @ FRONTMATTER_BOUNDARY @ [CHR 0x0A])"
    and short: "\<forall>l\<in>set (strings_Split data (CHR 0x0A)). length l < MaxScanTokenSize"
    and inner: "\<forall>l\<in>set (strings_Split data (CHR 0x0A)). dropCR l \<noteq> FRONTMATTER_BOUNDARY"
  shows "readFull fs p = Inr (joined data, [])"
proof -
  let ?B = FRONTMATTER_BOUNDARY
  let ?segs = "strings_Split data (CHR 0x0A)"
  define doc where "doc = ?B @ [CHR 0x0A] @ data @ [CHR 0x0A] @ ?B @ [CHR 0x0A]"
  have isf': "isFile fs p doc"
    using isf by (simp only: doc_def)
  have "rawLines doc = ?B # rawLines (data @ CHR 0x0A # (?B @ CHR 0x0A # []))"
    unfolding doc_def using rawLines_line [OF boundary_plain(1)] by simp
  also have "\<dots> = ?B # (?segs @ rawLines (?B @ CHR 0x0A # []))"
    by (simp only: rawLines_split)
  also have "\<dots> = ?B # (?segs @ [?B])"
    using rawLines_line [OF boundary_plain(1), of "[]"] by (simp add: rawLines_Nil)
  finally have raw: "rawLines doc = [?B] @ ?segs @ [?B]" by simp
  have shortall: "\<forall>l\<in>set (rawLines doc). length l < MaxScanTokenSize"
    unfolding raw using short boundary_plain(2) by auto
  have toks: "scanTokens doc = [?B] @ map dropCR ?segs @ [?B]"
    by (simp only: scanTokens_short [OF shortall] raw map_append list.map boundary_plain(3))
  have noB: "?B \<notin> set (map dropCR ?segs)"
    using inner by auto
  have loop: "readLoop (scanTokens doc) (0, [], []) = (2, joined data, [])"
    unfolding toks readLoop_append joined_def
    using readLoop_metadata [OF _ noB, of "Suc 0" "[]" "[]"]
    by simp
  show ?thesis
    by (simp add: readFull_isFile [OF isf'] scanErr_short [OF shortall] loop)
qed

lemma strings_Split_no_sep: "c \<notin> set s \<Longrightarrow> strings_Split s c = [s]"
  by (induction s) auto

lemma readFull_too_long:
  assumes "isFile fs p doc" and "l \<in> set (rawLines doc)" and "MaxScanTokenSize \<le> length l"
  shows "readFull fs p = Inl (Errorf ''error post reading file: %w'' [] ErrTooLong)"
  by (simp add: readFull_isFile [OF assms(1)] scanErr_long [OF assms(2,3)])

lemma jlex_string_run:
  "\<forall>c\<in>set u. c \<noteq> CHR 0x22 \<and> c \<noteq> CHR 0x5C \<and> \<not> (of_char c :: nat) < 0x20 \<Longrightarrow>
   jlex (InStr s) (u @ r) = jlex (InStr (s @ u)) r"
  by (induction u arbitrary: s) auto

lemma longLine_facts:
  "longLine \<noteq> []" "CHR 0x0A \<notin> set longLine" "length longLine = MaxScanTokenSize"
  "\<forall>c\<in>set longLine. c \<noteq> CHR 0x22 \<and> c \<noteq> CHR 0x5C \<and> \<not> (of_char c :: nat) < 0x20"
  by (auto simp: longLine_def MaxScanTokenSize_def)

lemma longLine_not_boundary: "dropCR longLine \<noteq> FRONTMATTER_BOUNDARY"
proof
  assume "dropCR longLine = FRONTMATTER_BOUNDARY"
  moreover have "dropCR longLine = longLine"
    by (rule dropCR_no_CR) (simp add: longLine_def)
  ultimately have "length longLine = length FRONTMATTER_BOUNDARY" by simp
  then show False
    by (simp add: longLine_facts(3) MaxScanTokenSize_def FRONTMATTER_BOUNDARY_def)
qed

section \<open>Boundary parsing on the example document\<close>

text \<open>
  Claim C1. The document of the four lines \<^verbatim>\<open>------------------\<close>, \<^verbatim>\<open>{"title":"A"}\<close>,
  \<^verbatim>\<open>------------------\<close>, \<^verbatim>\<open>Body text\<close>, each ended by a newline, decodes to the metadata
  \<^verbatim>\<open>{"title":"A"}\<close> and the body \<^verbatim>\<open>Body text\<close> followed by one newline: both boundary lines
  are discarded, the line between them is the metadata, the line after them is the body
  with its newline restored.
\<close>

theorem readFull_boundary_example:
  assumes \<open>isFile fs p ''------------------\<newline>{"title":"A"}\<newline>------------------\<newline>Body text\<newline>''\<close>
  shows \<open>readFull fs p = Inr (''{"title":"A"}'', ''Body text\<newline>'')\<close>
  by (simp add: readFull_isFile [OF assms] scanErr_def scanTokens_def example_rawLines
      MaxScanTokenSize_def dropCR_def FRONTMATTER_BOUNDARY_def)

theorem readFull_boundary_example_witness:
  \<open>isFile (Map.empty([''test.md''] \<mapsto>
       File ''------------------\<newline>{"title":"A"}\<newline>------------------\<newline>Body text\<newline>'')) ''test.md''
     ''------------------\<newline>{"title":"A"}\<newline>------------------\<newline>Body text\<newline>'' \<and>
   readFull (Map.empty([''test.md''] \<mapsto>
       File ''------------------\<newline>{"title":"A"}\<newline>------------------\<newline>Body text\<newline>'')) ''test.md''
     = Inr (''{"title":"A"}'', ''Body text\<newline>'')\<close>
proof -
  have f: \<open>isFile (Map.empty([''test.md''] \<mapsto>
       File ''------------------\<newline>{"title":"A"}\<newline>------------------\<newline>Body text\<newline>'')) ''test.md''
     ''------------------\<newline>{"title":"A"}\<newline>------------------\<newline>Body text\<newline>''\<close>
    by (simp add: isFile_def splitPath_def)
  show ?thesis
    using f readFull_boundary_example [OF f] by simp
qed

section \<open>The round trip through the frontmatter\<close>

text \<open>
  Claim C2, as stated, fails: valid metadata with a line of \<open>MaxScanTokenSize\<close> bytes or
  more is written by \<open>addFrontmatter\<close>, but \<open>readFull\<close> then fails with the scanner's
  \<^verbatim>\<open>bufio.ErrTooLong\<close> and returns no metadata at all.
\<close>

theorem frontmatter_round_trip_counterexample:
  \<open>json_decode (''{"title":"'' @ longLine @ ''"}'') = Some (JObj [(''title'', JStr longLine)]) \<and>
   addFrontmatter Map.empty ''test.md'' (''{"title":"'' @ longLine @ ''"}'') =
     Inr (Map.empty([''test.md''] \<mapsto> File (FRONTMATTER_BOUNDARY @ [CHR 0x0A] @
            (''{"title":"'' @ longLine @ ''"}'') @ [CHR 0x0A] @ FRONTMATTER_BOUNDARY @ [CHR 0x0A]))) \<and>
   readFull (Map.empty([''test.md''] \<mapsto> File (FRONTMATTER_BOUNDARY @ [CHR 0x0A] @
            (''{"title":"'' @ longLine @ ''"}'') @ [CHR 0x0A] @ FRONTMATTER_BOUNDARY @ [CHR 0x0A])))
     ''test.md'' = Inl (Errorf ''error post reading file: %w'' [] ErrTooLong)\<close>
proof -
  define data where \<open>data = ''{"title":"'' @ longLine @ ''"}''\<close>
  define doc where "doc = FRONTMATTER_BOUNDARY @ [CHR 0x0A] @ data @ [CHR 0x0A] @ FRONTMATTER_BOUNDARY @ [CHR 0x0A]"
  define fs where "fs = Map.empty([''test.md''] \<mapsto> File doc)"
  have l: \<open>jlex Top data = Some [LBrace, TStr ''title'', Colon, TStr longLine, RBrace]\<close>
    unfolding data_def using jlex_string_run [OF longLine_facts(4), of "[]"]
    by (simp add: isSpace_def isWordChar_def punct_def jemit_def)
  have j: \<open>json_decode data = Some (JObj [(''title'', JStr longLine)])\<close>
    unfolding json_decode_def l by (simp add: jpush_def maxNestingDepth_def wordValue_def)
  have a: "addFrontmatter Map.empty ''test.md'' data = Inr fs"
    by (simp add: addFrontmatter_def os_WriteFile_def splitPath_def isDir_def fs_def doc_def)
  have nonl: "CHR 0x0A \<notin> set data"
    unfolding data_def using longLine_facts(2) by simp
  have "rawLines doc = FRONTMATTER_BOUNDARY # rawLines (data @ CHR 0x0A # (FRONTMATTER_BOUNDARY @ CHR 0x0A # []))"
    unfolding doc_def using rawLines_line [OF boundary_plain(1)] by simp
  also have "\<dots> = FRONTMATTER_BOUNDARY # (strings_Split data (CHR 0x0A) @ rawLines (FRONTMATTER_BOUNDARY @ CHR 0x0A # []))"
    by (simp only: rawLines_split)
  finally have m: "data \<in> set (rawLines doc)"
    by (simp add: strings_Split_no_sep [OF nonl])
  have len: "MaxScanTokenSize \<le> length data"
    unfolding data_def by (simp add: longLine_facts(3))
  have f: "isFile fs ''test.md'' doc"
    by (simp add: isFile_def splitPath_def fs_def)
  from j a readFull_too_long [OF f m len] show ?thesis
    unfolding fs_def doc_def data_def by blast
qed

text \<open>
  Claim C2, amended. For every valid JSON text \<open>data\<close> with value \<open>M\<close> whose lines are all
  shorter than \<open>MaxScanTokenSize\<close> bytes: once \<open>addFrontmatter\<close> has written it between the
  two boundary lines, \<open>readFull\<close> on that file returns an empty body and a metadata
  buffer (the lines of \<open>data\<close> joined without their terminators) that decodes to \<open>M\<close>
  again.
\<close>

theorem frontmatter_round_trip:
  assumes "json_decode data = Some M"
    and "\<forall>l\<in>set (strings_Split data (CHR 0x0A)). length l < MaxScanTokenSize"
    and "addFrontmatter fs p data = Inr fs'"
  shows "readFull fs' p = Inr (joined data, []) \<and> json_decode (joined data) = Some M"
proof -
  have inner: "\<forall>l\<in>set (strings_Split data (CHR 0x0A)). dropCR l \<noteq> FRONTMATTER_BOUNDARY"
    using json_no_boundary_line [OF assms(1)] by blast
  from readFull_framed [OF addFrontmatter_isFile [OF assms(3)] assms(2) inner]
    json_decode_joined [OF assms(1)]
  show ?thesis by (rule conjI)
qed

lemma json_example:
  \<open>json_decode ''{\<newline>"title": "A",\<newline>"tags": ["x", "y"]\<newline>}'' =
     Some (JObj [(''title'', JStr ''A''), (''tags'', JArr [JStr ''x'', JStr ''y''])])\<close>
  by (simp add: json_decode_def isSpace_def isWordChar_def punct_def jemit_def jpush_def
      maxNestingDepth_def)

lemma strings_Split_example:
  \<open>strings_Split ''{\<newline>"title": "A",\<newline>"tags": ["x", "y"]\<newline>}'' (CHR 0x0A)
     = [''{'', ''"title": "A",'', ''"tags": ["x", "y"]'', ''}'']\<close>
  by simp

theorem frontmatter_round_trip_witness:
  \<open>json_decode ''{\<newline>"title": "A",\<newline>"tags": ["x", "y"]\<newline>}'' =
     Some (JObj [(''title'', JStr ''A''), (''tags'', JArr [JStr ''x'', JStr ''y''])]) \<and>
   addFrontmatter Map.empty ''test.md'' ''{\<newline>"title": "A",\<newline>"tags": ["x", "y"]\<newline>}'' =
     Inr (Map.empty([''test.md''] \<mapsto> File
       ''------------------\<newline>{\<newline>"title": "A",\<newline>"tags": ["x", "y"]\<newline>}\<newline>------------------\<newline>'')) \<and>
   readFull (Map.empty([''test.md''] \<mapsto> File
       ''------------------\<newline>{\<newline>"title": "A",\<newline>"tags": ["x", "y"]\<newline>}\<newline>------------------\<newline>''))
     ''test.md'' = Inr (''{"title": "A","tags": ["x", "y"]}'', []) \<and>
   json_decode ''{"title": "A","tags": ["x", "y"]}'' =
     Some (JObj [(''title'', JStr ''A''), (''tags'', JArr [JStr ''x'', JStr ''y''])])\<close>
proof -
  have s: \<open>\<forall>l\<in>set (strings_Split ''{\<newline>"title": "A",\<newline>"tags": ["x", "y"]\<newline>}'' (CHR 0x0A)).
      length l < MaxScanTokenSize\<close>
    by (simp add: MaxScanTokenSize_def)
  have a: \<open>addFrontmatter Map.empty ''test.md'' ''{\<newline>"title": "A",\<newline>"tags": ["x", "y"]\<newline>}'' =
     Inr (Map.empty([''test.md''] \<mapsto> File
       ''------------------\<newline>{\<newline>"title": "A",\<newline>"tags": ["x", "y"]\<newline>}\<newline>------------------\<newline>''))\<close>
    by (simp add: addFrontmatter_def os_WriteFile_def splitPath_def isDir_def FRONTMATTER_BOUNDARY_def)
  have j: \<open>joined ''{\<newline>"title": "A",\<newline>"tags": ["x", "y"]\<newline>}'' = ''{"title": "A","tags": ["x", "y"]}''\<close>
    by (simp add: joined_def dropCR_def)
  show ?thesis
    using json_example a frontmatter_round_trip [OF json_example s a]
    by (simp only: j)
qed

section \<open>Fewer than two boundary lines\<close>

text \<open>
  Claim C3, as stated, fails: the document of the line \<^verbatim>\<open>meta\<close> and a second line of
  \<open>MaxScanTokenSize\<close> bytes holds no boundary line at all, yet \<open>readFull\<close> returns no
  buffers: the scan fails with \<^verbatim>\<open>bufio.ErrTooLong\<close>, and neither non-boundary line reaches
  a metadata buffer that is returned.
\<close>

theorem readFull_fewer_than_two_boundaries_counterexample:
  "isFile (Map.empty([''test.md''] \<mapsto> File (''meta'' @ [CHR 0x0A] @ longLine))) ''test.md''
     (''meta'' @ [CHR 0x0A] @ longLine) \<and>
   count_list (map dropCR (rawLines (''meta'' @ [CHR 0x0A] @ longLine))) FRONTMATTER_BOUNDARY = 0 \<and>
   readFull (Map.empty([''test.md''] \<mapsto> File (''meta'' @ [CHR 0x0A] @ longLine))) ''test.md''
     = Inl (Errorf ''error post reading file: %w'' [] ErrTooLong)"
proof -
  define data where "data = ''meta'' @ [CHR 0x0A] @ longLine"
  define fs where "fs = Map.empty([''test.md''] \<mapsto> File data)"
  have f: "isFile fs ''test.md'' data"
    by (simp add: isFile_def splitPath_def fs_def)
  have "rawLines data = ''meta'' # rawLines longLine"
    unfolding data_def using rawLines_line [of "''meta''" longLine] by simp
  then have raw: "rawLines data = [''meta'', longLine]"
    using rawLines_last [OF longLine_facts(2,1)] by simp
  have c: "count_list (map dropCR (rawLines data)) FRONTMATTER_BOUNDARY = 0"
    using longLine_not_boundary by (simp add: raw dropCR_def FRONTMATTER_BOUNDARY_def)
  have r: "readFull fs ''test.md'' = Inl (Errorf ''error post reading file: %w'' [] ErrTooLong)"
    by (rule readFull_too_long [OF f, of longLine]) (simp_all add: raw longLine_facts(3))
  from f c r show ?thesis
    unfolding fs_def data_def by blast
qed

text \<open>
  Claim C3, amended. Take a document whose lines are all shorter than
  \<open>MaxScanTokenSize\<close> bytes and of whose lines (as the scanner delivers them, the line
  terminator stripped) fewer than two equal the boundary literal. The loop of \<open>readFull\<close>
  never reaches body mode (its boundary counter ends below 2), and \<open>readFull\<close> returns an
  empty body and a metadata buffer holding every line of the input that is not a
  boundary, in order.
\<close>

theorem readFull_fewer_than_two_boundaries:
  assumes "isFile fs p data"
    and "\<forall>l\<in>set (rawLines data). length l < MaxScanTokenSize"
    and "count_list (map dropCR (rawLines data)) FRONTMATTER_BOUNDARY < 2"
  shows "readFull fs p =
           Inr (concat (filter (\<lambda>l. l \<noteq> FRONTMATTER_BOUNDARY) (map dropCR (rawLines data))), []) \<and>
         fst (readLoop (scanTokens data) (0, [], [])) < 2"
proof -
  have toks: "scanTokens data = map dropCR (rawLines data)"
    by (rule scanTokens_short [OF assms(2)])
  have few: "0 + count_list (scanTokens data) FRONTMATTER_BOUNDARY < 2"
    using assms(3) by (simp add: toks)
  have loop: "readLoop (scanTokens data) (0, [], []) =
           (count_list (scanTokens data) FRONTMATTER_BOUNDARY,
            concat (filter (\<lambda>l. l \<noteq> FRONTMATTER_BOUNDARY) (scanTokens data)), [])"
    using readLoop_few_boundaries [OF few, of "[]" "[]"] by simp
  have r: "readFull fs p =
           Inr (concat (filter (\<lambda>l. l \<noteq> FRONTMATTER_BOUNDARY) (map dropCR (rawLines data))), [])"
    using loop by (simp add: readFull_isFile [OF assms(1)] scanErr_short [OF assms(2)] toks)
  have n: "fst (readLoop (scanTokens data) (0, [], [])) < 2"
    using few by (simp add: loop)
  from r n show ?thesis by (rule conjI)
qed

lemma one_boundary_rawLines:
  \<open>rawLines ''------------------\<newline>{"title":"A"}\<newline>Body text\<newline>''
     = [''------------------'', ''{"title":"A"}'', ''Body text'']\<close>
  by (simp add: rawLines.simps)

theorem readFull_fewer_than_two_boundaries_witness:
  \<open>isFile (Map.empty([''test.md''] \<mapsto> File ''------------------\<newline>{"title":"A"}\<newline>Body text\<newline>''))
      ''test.md'' ''------------------\<newline>{"title":"A"}\<newline>Body text\<newline>'' \<and>
    list_all (\<lambda>l. length l < MaxScanTokenSize)
      (rawLines ''------------------\<newline>{"title":"A"}\<newline>Body text\<newline>'') \<and>
    count_list (map dropCR (rawLines ''------------------\<newline>{"title":"A"}\<newline>Body text\<newline>''))
      FRONTMATTER_BOUNDARY < 2 \<and>
    readFull (Map.empty([''test.md''] \<mapsto> File ''------------------\<newline>{"title":"A"}\<newline>Body text\<newline>''))
      ''test.md'' = Inr (''{"title":"A"}Body text'', [])\<close>
proof -
  let ?doc = \<open>''------------------\<newline>{"title":"A"}\<newline>Body text\<newline>''\<close>
  let ?fs = "Map.empty([''test.md''] \<mapsto> File ?doc)"
  have f: "isFile ?fs ''test.md'' ?doc"
    by (simp add: isFile_def splitPath_def)
  have s: "\<forall>l\<in>set (rawLines ?doc). length l < MaxScanTokenSize"
    by (simp add: one_boundary_rawLines MaxScanTokenSize_def)
  have c: "count_list (map dropCR (rawLines ?doc)) FRONTMATTER_BOUNDARY < 2"
    by (simp add: one_boundary_rawLines dropCR_def FRONTMATTER_BOUNDARY_def)
  have "readFull ?fs ''test.md'' =
      Inr (concat (filter (\<lambda>l. l \<noteq> FRONTMATTER_BOUNDARY) (map dropCR (rawLines ?doc))), [])"
    using readFull_fewer_than_two_boundaries [OF f s c] by (rule conjunct1)
  then have \<open>readFull ?fs ''test.md'' = Inr (''{"title":"A"}Body text'', [])\<close>
    by (simp add: one_boundary_rawLines dropCR_def FRONTMATTER_BOUNDARY_def)
  with f s c show ?thesis
    by (simp add: list_all_iff)
qed

section \<open>Root-name derivation\<close>

lemma filepath_Split_join: "fst (filepath_Split p) @ snd (filepath_Split p) = p"
proof -
  have "rev (takeWhile (\<lambda>c. c \<noteq> CHR ''/'') (rev p) @ dropWhile (\<lambda>c. c \<noteq> CHR ''/'') (rev p)) = p"
    by (simp only: takeWhile_dropWhile_id rev_rev_ident)
  then show ?thesis by (simp only: filepath_Split_def fst_conv snd_conv rev_append)
qed

lemma filepath_Split_file: "CHR ''/'' \<notin> set (snd (filepath_Split p))"
  using set_takeWhileD [of "CHR ''/''" "\<lambda>c. c \<noteq> CHR ''/''" "rev p"]
  by (auto simp: filepath_Split_def)

lemma filepath_Split_dir:
  "fst (filepath_Split p) = [] \<or> last (fst (filepath_Split p)) = CHR ''/''"
proof (cases "dropWhile (\<lambda>c. c \<noteq> CHR ''/'') (rev p)")
  case Nil
  then show ?thesis by (simp add: filepath_Split_def)
next
  case (Cons x xs)
  then have "x = CHR ''/''" using hd_dropWhile [of "\<lambda>c. c \<noteq> CHR ''/''" "rev p"] by auto
  with Cons show ?thesis by (simp add: filepath_Split_def)
qed

text \<open>
  Claim C4. \<open>rootName\<close> maps \<^verbatim>\<open>bbc/cbc/abc.md\<close> to \<^verbatim>\<open>abc\<close> and \<^verbatim>\<open>abc.md.json\<close> to \<^verbatim>\<open>abc\<close>. In
  general the path splits into a directory part, empty or ending in a slash, and a final
  component with no slash, and the root name is that final component up to its first dot:
  a function of the path alone.
\<close>

theorem rootName_derivation:
  "rootName ''bbc/cbc/abc.md'' = ''abc'' \<and>
   rootName ''abc.md.json'' = ''abc'' \<and>
   rootName p = takeWhile (\<lambda>c. c \<noteq> CHR ''.'') (snd (filepath_Split p)) \<and>
   fst (filepath_Split p) @ snd (filepath_Split p) = p \<and>
   CHR ''/'' \<notin> set (snd (filepath_Split p)) \<and>
   (fst (filepath_Split p) = [] \<or> last (fst (filepath_Split p)) = CHR ''/'')"
proof -
  have g: "rootName q = takeWhile (\<lambda>c. c \<noteq> CHR ''.'') (snd (filepath_Split q))" for q
    by (simp add: rootName_def strings_Split_0 split: prod.splits)
  have a: "rootName ''bbc/cbc/abc.md'' = ''abc''"
    by (simp add: g filepath_Split_def)
  have b: "rootName ''abc.md.json'' = ''abc''"
    by (simp add: g filepath_Split_def)
  show ?thesis
    using a b g filepath_Split_join filepath_Split_file filepath_Split_dir by blast
qed

section \<open>The synthetic post of a tag page\<close>

lemma generate_tags_record:
  "generate_tags recordRender noMkdir cfg ts calls =
     Inr (calls @ map (\<lambda>t. (zeroPost\<lparr>Post.Layout := ''tagged'', RootName := Slug t\<rparr>,
                              filepath_Join [SITE_DIR, ''tagged'', Slug t], t)) ts)"
  by (induction ts arbitrary: calls) (simp_all add: recordRender_def noMkdir_def)

lemma format_tags_record:
  "format_tags recordRender noMkdir cfg ts calls =
     Inr (calls @ map (\<lambda>t. (zeroPost\<lparr>Post.Layout := Tag.Layout t, RootName := Slug t\<rparr>,
                              filepath_Join [''doc'', ''tagged'', Slug t], t)) ts)"
  by (induction ts arbitrary: calls) (simp_all add: recordRender_def noMkdir_def)

text \<open>
  Claim C5, as stated, fails for \<open>generate\<close>: for the tag with slug \<^verbatim>\<open>go\<close> and layout
  \<^verbatim>\<open>custom\<close>, the post handed to \<open>render\<close> has the layout \<^verbatim>\<open>tagged\<close>, not the tag's own.
\<close>

theorem tag_page_layout_counterexample:
  "generate_tags recordRender noMkdir zeroConfig [\<lparr>Slug = ''go'', Tag.Layout = ''custom''\<rparr>] [] =
     Inr [(zeroPost\<lparr>Post.Layout := ''tagged'', RootName := ''go''\<rparr>, ''docs/tagged/go'',
           \<lparr>Slug = ''go'', Tag.Layout = ''custom''\<rparr>)] \<and>
   Post.Layout (zeroPost\<lparr>Post.Layout := ''tagged'', RootName := ''go''\<rparr>) \<noteq>
     Tag.Layout \<lparr>Slug = ''go'', Tag.Layout = ''custom''\<rparr>"
  by (simp add: recordRender_def noMkdir_def filepath_Join_def SITE_DIR_def)

text \<open>
  Claim C5, amended. Both loops call \<open>render\<close> once for every tag of the collection, in
  order, with the tag itself, its directory under \<^verbatim>\<open>tagged\<close>, and a synthetic post with
  no body whose root name is the tag's slug. In \<open>generate\<close> the layout of that post is
  the fixed name \<^verbatim>\<open>tagged\<close>, whatever layout the tag names; in \<open>format\<close> (main.go) it is
  the tag's own layout name.
\<close>

theorem tag_pages_synthetic_post:
  "(\<exists>calls. generate_tags recordRender noMkdir cfg tags [] = Inr calls \<and>
      map (\<lambda>(post, destDir, t). t) calls = tags \<and>
      list_all (\<lambda>(post, destDir, t).
         Markdown post = [] \<and> HTML post = [] \<and> RootName post = Slug t \<and>
         Post.Layout post = ''tagged'' \<and>
         destDir = filepath_Join [SITE_DIR, ''tagged'', Slug t]) calls) \<and>
   (\<exists>calls. format_tags recordRender noMkdir cfg tags [] = Inr calls \<and>
      map (\<lambda>(post, destDir, t). t) calls = tags \<and>
      list_all (\<lambda>(post, destDir, t).
         Markdown post = [] \<and> HTML post = [] \<and> RootName post = Slug t \<and>
         Post.Layout post = Tag.Layout t \<and>
         destDir = filepath_Join [''doc'', ''tagged'', Slug t]) calls)"
  by (simp add: generate_tags_record format_tags_record comp_def list_all_iff zeroPost_def)

section \<open>Fail-fast discovery of the posts\<close>

lemma parsePosts_append:
  "parsePosts dec H fs dir (pre @ rest) acc =
     (case parsePosts dec H fs dir pre acc of
        Inl e \<Rightarrow> Inl e
      | Inr ps \<Rightarrow> parsePosts dec H fs dir rest ps)"
  by (induction pre arbitrary: acc) (auto split: sum.splits)

lemma parse_read_failure:
  "readFull fs path = Inl err \<Longrightarrow>
   parse dec H fs path = Inl (Errorf ''error reading post: %s, %w'' [path] err)"
  by (simp add: parse_def)

text \<open>
  Claim C6. When the files before \<open>name\<close> parse and the metadata of \<open>name\<close> is not valid
  JSON, the discovery returns an error and no configuration with posts: the posts parsed
  so far are dropped. But the error is built from two fixed texts and the JSON error
  only; unlike the error of a file that cannot be read (\<open>parse_read_failure\<close>), it
  carries no path, so it does not identify the offending file.
\<close>

theorem generate_posts_fail_fast:
  assumes "names = pre @ name # rest"
    and "parsePosts dec H fs (filepath_Join [MARKDOWN_DIR, ''posts'']) pre [] = Inr posts"
    and "readFull fs (filepath_Join [filepath_Join [MARKDOWN_DIR, ''posts''], name]) = Inr (metadata, markdown)"
    and "json_decode metadata = None"
  shows "generate_posts dec H fs names cfg =
           Inl (Errorf ''error rendering posts: %w'' []
                 (Errorf ''error unmarshaling metadata: %w'' [] SyntaxError)) \<and>
         errorArgs (Errorf ''error rendering posts: %w'' []
                 (Errorf ''error unmarshaling metadata: %w'' [] SyntaxError)) = []"
proof -
  have "parse dec H fs (filepath_Join [filepath_Join [MARKDOWN_DIR, ''posts''], name])
      = Inl (Errorf ''error unmarshaling metadata: %w'' [] SyntaxError)"
    using assms(3,4) by (simp add: parse_def json_Unmarshal_def)
  then have "parsePosts dec H fs (filepath_Join [MARKDOWN_DIR, ''posts'']) names []
      = Inl (Errorf ''error rendering posts: %w'' [] (Errorf ''error unmarshaling metadata: %w'' [] SyntaxError))"
    using assms(1,2) by (simp add: parsePosts_append)
  then show ?thesis by (simp add: generate_posts_def)
qed

lemma bad_rawLines:
  \<open>rawLines ''------------------\<newline>{oops\<newline>------------------\<newline>Body\<newline>''
     = [''------------------'', ''{oops'', ''------------------'', ''Body'']\<close>
  by (simp add: rawLines.simps)

theorem generate_posts_fail_fast_witness:
  \<open>generate_posts (\<lambda>j post. Inr post) (\<lambda>md. md)
     (Map.empty
        ([''markdown'', ''posts'', ''a.md''] \<mapsto>
           File ''------------------\<newline>{"title":"A"}\<newline>------------------\<newline>Body text\<newline>'',
         [''markdown'', ''posts'', ''b.md''] \<mapsto>
           File ''------------------\<newline>{oops\<newline>------------------\<newline>Body\<newline>''))
     [''a.md'', ''b.md''] zeroConfig =
   Inl (Errorf ''error rendering posts: %w'' [] (Errorf ''error unmarshaling metadata: %w'' [] SyntaxError))\<close>
proof -
  let ?good = \<open>''------------------\<newline>{"title":"A"}\<newline>------------------\<newline>Body text\<newline>''\<close>
  let ?bad = \<open>''------------------\<newline>{oops\<newline>------------------\<newline>Body\<newline>''\<close>
  let ?fs = "Map.empty([''markdown'', ''posts'', ''a.md''] \<mapsto> File ?good,
                       [''markdown'', ''posts'', ''b.md''] \<mapsto> File ?bad)"
  have dir: "filepath_Join [MARKDOWN_DIR, ''posts''] = ''markdown/posts''"
    by (simp add: filepath_Join_def MARKDOWN_DIR_def)
  have fa: "isFile ?fs ''markdown/posts/a.md'' ?good"
    by (simp add: isFile_def splitPath_def)
  have fb: "isFile ?fs ''markdown/posts/b.md'' ?bad"
    by (simp add: isFile_def splitPath_def)
  have ra: \<open>readFull ?fs ''markdown/posts/a.md'' = Inr (''{"title":"A"}'', ''Body text\<newline>'')\<close>
    by (simp add: readFull_isFile [OF fa] scanErr_def scanTokens_def example_rawLines
        MaxScanTokenSize_def dropCR_def FRONTMATTER_BOUNDARY_def)
  have rb: \<open>readFull ?fs ''markdown/posts/b.md'' = Inr (''{oops'', ''Body\<newline>'')\<close>
    by (simp add: readFull_isFile [OF fb] scanErr_def scanTokens_def bad_rawLines
        MaxScanTokenSize_def dropCR_def FRONTMATTER_BOUNDARY_def)
  have ja: \<open>json_decode ''{"title":"A"}'' = Some (JObj [(''title'', JStr ''A'')])\<close>
    by (simp add: json_decode_def isSpace_def isWordChar_def punct_def jemit_def jpush_def
        maxNestingDepth_def)
  have jb: \<open>json_decode ''{oops'' = None\<close>
    by (simp add: json_decode_def isSpace_def isWordChar_def punct_def jemit_def jpush_def
        maxNestingDepth_def)
  have n: "[''a.md'', ''b.md''] = [''a.md''] @ ''b.md'' # []" by simp
  have pa: \<open>parsePosts (\<lambda>j post. Inr post) (\<lambda>md. md) ?fs (filepath_Join [MARKDOWN_DIR, ''posts'']) [''a.md''] []
      = Inr [zeroPost\<lparr>Markdown := ''Body text\<newline>'', HTML := ''Body text\<newline>'', RootName := ''a''\<rparr>]\<close>
    unfolding dir
    by (simp add: filepath_Join_def parse_def ra json_Unmarshal_def ja rootName_def
        filepath_Split_def)
  have rb': \<open>readFull ?fs (filepath_Join [filepath_Join [MARKDOWN_DIR, ''posts''], ''b.md'']) = Inr (''{oops'', ''Body\<newline>'')\<close>
    unfolding dir using rb by (simp add: filepath_Join_def)
  from generate_posts_fail_fast [OF n pa rb' jb] show ?thesis by simp
qed

section \<open>Rendering a code block\<close>

lemma RenderNode_CodeBlock:
  "RenderNode dflt (s, w) (CodeBlock literal) entering = ((s, renderCodeBlock w literal entering), GoToNext)"
  by (simp add: RenderNode_def)

lemma RenderNode_other:
  "RenderNode dflt (s, w) (Container kind children) entering =
     (case dflt s (Container kind children) entering of (out, status, s') \<Rightarrow> ((s', w @ out), status))"
  "RenderNode dflt (s, w) (Leaf kind literal) entering =
     (case dflt s (Leaf kind literal) entering of (out, status, s') \<Rightarrow> ((s', w @ out), status))"
  by (simp_all add: RenderNode_def)

text \<open>
  Claim C7. Let the parser read the body of a fence, the line \<^verbatim>\<open>hello\<close> and a fence as a
  document holding one code block with the literal text \<^verbatim>\<open>hello\<close> and a newline, and let
  the library's rendering of the document node on entering not stop the walk. Then the
  output of \<open>mdToHTML\<close> contains the wrapper with the literal text inside, verbatim.
  Whatever the default renderer is, a code block is rendered by the hook alone: on
  entering it writes the wrapper around the literal, on leaving nothing, and the default
  rendering is not consulted.
\<close>

theorem mdToHTML_code_block:
  assumes \<open>mdparse (''```\<newline>hello\<newline>```'') = Container kind [CodeBlock ''hello\<newline>'']\<close>
    and "dflt init (Container kind [CodeBlock ''hello\<newline>'']) True = (out, GoToNext, after)"
  shows \<open>sublist (''<div class='' @ [CHR 0x27] @ ''highlight'' @ [CHR 0x27] @ ''><pre class='' @ [CHR 0x27] @
            ''highlight'' @ [CHR 0x27] @ ''><code>hello\<newline></code></pre></div>'')
          (mdToHTML mdparse dflt init (''```\<newline>hello\<newline>```'')) \<and>
        (\<forall>d s w literal.
           RenderNode d (s, w) (CodeBlock literal) True =
             ((s, w @ ''<div class='' @ [CHR 0x27] @ ''highlight'' @ [CHR 0x27] @ ''><pre class='' @ [CHR 0x27] @
                ''highlight'' @ [CHR 0x27] @ ''><code>'' @ literal @ ''</code></pre></div>''), GoToNext) \<and>
           RenderNode d (s, w) (CodeBlock literal) False = ((s, w), GoToNext))\<close>
proof -
  let ?code = \<open>''<div class='' @ [CHR 0x27] @ ''highlight'' @ [CHR 0x27] @ ''><pre class='' @ [CHR 0x27] @
            ''highlight'' @ [CHR 0x27] @ ''><code>hello\<newline></code></pre></div>''\<close>
  obtain out2 status2 s2 where d2: "dflt after (Container kind [CodeBlock ''hello\<newline>'']) False = (out2, status2, s2)"
    by (cases "dflt after (Container kind [CodeBlock ''hello\<newline>'']) False") auto
  have w: "walk (RenderNode dflt) (init, []) (Container kind [CodeBlock ''hello\<newline>''])
             = ((s2, out @ ?code @ out2), if status2 = Terminate then Terminate else GoToNext)"
    by (simp add: RenderNode_other RenderNode_CodeBlock assms(2) d2 renderCodeBlock_def)
  have "mdToHTML mdparse dflt init (''```\<newline>hello\<newline>```'') = out @ ?code @ out2"
    unfolding mdToHTML_def assms(1) w by simp
  then have "sublist ?code (mdToHTML mdparse dflt init (''```\<newline>hello\<newline>```''))"
    unfolding sublist_def by blast
  then show ?thesis
    by (simp add: RenderNode_CodeBlock renderCodeBlock_def)
qed

theorem mdToHTML_code_block_witness:
  \<open>mdToHTML (\<lambda>md. Container ''Document'' [CodeBlock ''hello\<newline>'']) (\<lambda>s n entering. ([], GoToNext, s)) ()
     (''```\<newline>hello\<newline>```'') =
   ''<div class='' @ [CHR 0x27] @ ''highlight'' @ [CHR 0x27] @ ''><pre class='' @ [CHR 0x27] @
            ''highlight'' @ [CHR 0x27] @ ''><code>hello\<newline></code></pre></div>'' \<and>
   sublist (''<div class='' @ [CHR 0x27] @ ''highlight'' @ [CHR 0x27] @ ''><pre class='' @ [CHR 0x27] @
            ''highlight'' @ [CHR 0x27] @ ''><code>hello\<newline></code></pre></div>'')
     (mdToHTML (\<lambda>md. Container ''Document'' [CodeBlock ''hello\<newline>'']) (\<lambda>s n entering. ([], GoToNext, s)) ()
        (''```\<newline>hello\<newline>```''))\<close>
proof -
  let ?p = \<open>\<lambda>md :: bytes. Container ''Document'' [CodeBlock ''hello\<newline>'']\<close>
  let ?d = "\<lambda>(s :: unit) (n :: node) (entering :: bool). ([] :: bytes, GoToNext, s)"
  have e: \<open>mdToHTML ?p ?d () (''```\<newline>hello\<newline>```'') =
   ''<div class='' @ [CHR 0x27] @ ''highlight'' @ [CHR 0x27] @ ''><pre class='' @ [CHR 0x27] @
            ''highlight'' @ [CHR 0x27] @ ''><code>hello\<newline></code></pre></div>''\<close>
    by (simp add: mdToHTML_def RenderNode_def renderCodeBlock_def)
  have p1: \<open>?p (''```\<newline>hello\<newline>```'') = Container ''Document'' [CodeBlock ''hello\<newline>'']\<close>
    by simp
  have p2: "?d () (Container ''Document'' [CodeBlock ''hello\<newline>'']) True = ([], GoToNext, ())"
    by simp
  have \<open>sublist (''<div class='' @ [CHR 0x27] @ ''highlight'' @ [CHR 0x27] @ ''><pre class='' @ [CHR 0x27] @
            ''highlight'' @ [CHR 0x27] @ ''><code>hello\<newline></code></pre></div>'')
     (mdToHTML ?p ?d () (''```\<newline>hello\<newline>```''))\<close>
    using mdToHTML_code_block [where mdparse = ?p and dflt = ?d and init = "()", OF p1 p2]
    by (rule conjunct1)
  with e show ?thesis by (rule conjI)
qed

section \<open>Idempotent reset\<close>

lemma splitPath_SITE: "splitPath SITE_DIR = [''docs'']"
  by (simp add: splitPath_def SITE_DIR_def)

lemma splitPath_blog: "splitPath (filepath_Join [SITE_DIR, ''blog'']) = [''docs'', ''blog'']"
  by (simp add: splitPath_def SITE_DIR_def filepath_Join_def)

lemma splitPath_tagged: "splitPath (filepath_Join [SITE_DIR, ''tagged'']) = [''docs'', ''tagged'']"
  by (simp add: splitPath_def SITE_DIR_def filepath_Join_def)

lemma prefix_of_under:
  assumes "prefix [d] q" and "prefix r q" and "r \<noteq> []"
  shows "prefix [d] r"
  using assms by (cases r; cases q) auto

lemma mkdirAll_outside:
  assumes "mkdirAll fs q = Inr fs'" and "prefix [d] q" and "\<not> prefix [d] r"
  shows "fs' r = fs r"
proof -
  from assms(1) have fs': "fs' = (\<lambda>r. if r \<noteq> [] \<and> prefix r q then Some Dir else fs r)"
    by (simp add: mkdirAll_def split: if_splits)
  have "\<not> (r \<noteq> [] \<and> prefix r q)"
    using prefix_of_under [OF assms(2)] assms(3) by blast
  then show ?thesis by (auto simp: fs')
qed

lemma copyEntries_outside:
  assumes "copyEntries fs [d] es = Inr fs'" and "\<not> prefix [d] r"
  shows "fs' r = fs r"
  using assms
proof (induction fs "[d]" es arbitrary: fs' rule: copyEntries.induct)
  case (1 fs)
  then show ?case by simp
next
  case (2 fs rel rest)
  from "2.prems"(1) obtain fs1 where m: "mkdirAll fs ([d] @ rel) = Inr fs1"
    and c: "copyEntries fs1 [d] rest = Inr fs'"
    by (auto split: sum.splits)
  from "2.hyps" [OF m c "2.prems"(2)] mkdirAll_outside [OF m _ "2.prems"(2)]
  show ?case by simp
next
  case (3 fs rel data rest)
  from "3.prems"(1) have c: "copyEntries (fs([d] @ rel := Some (File data))) [d] rest = Inr fs'"
    and ok: "fs ([d] @ rel) = None" "rel \<noteq> []" "isDir fs (butlast ([d] @ rel))"
    by (auto split: if_splits)
  have "r \<noteq> [d] @ rel" using "3.prems"(2) by auto
  have n1: "\<not> fs ([d] @ rel) \<noteq> None" using ok(1) by simp
  have n2: "\<not> (rel = [] \<or> \<not> isDir fs (butlast ([d] @ rel)))" using ok(2,3) by simp
  from "3.hyps" [OF n1 n2 c "3.prems"(2)] \<open>r \<noteq> [d] @ rel\<close> show ?case by simp
qed

lemma mkdirAll_agree:
  assumes "\<forall>r. prefix [d] r \<longrightarrow> fs r = gs r" and "prefix [d] q"
  shows "(\<forall>e. mkdirAll fs q = Inl e \<longrightarrow> mkdirAll gs q = Inl e) \<and>
         (\<forall>fs'. mkdirAll fs q = Inr fs' \<longrightarrow>
            (\<exists>gs'. mkdirAll gs q = Inr gs' \<and> (\<forall>r. prefix [d] r \<longrightarrow> fs' r = gs' r)))"
proof -
  have "\<And>r. r \<noteq> [] \<Longrightarrow> prefix r q \<Longrightarrow> isRegular fs r = isRegular gs r"
    using prefix_of_under [OF assms(2)] assms(1) by (simp add: isRegular_def)
  then have "list_ex (\<lambda>r. r \<noteq> [] \<and> isRegular fs r) (prefixes q)
           = list_ex (\<lambda>r. r \<noteq> [] \<and> isRegular gs r) (prefixes q)"
    by (auto simp: list_ex_iff in_set_prefixes)
  then show ?thesis
    using assms(1) by (auto simp: mkdirAll_def)
qed

lemma copyEntries_agree:
  assumes "\<forall>r. prefix [d] r \<longrightarrow> fs r = gs r"
  shows "(\<forall>e. copyEntries fs [d] es = Inl e \<longrightarrow> copyEntries gs [d] es = Inl e) \<and>
         (\<forall>fs'. copyEntries fs [d] es = Inr fs' \<longrightarrow>
            (\<exists>gs'. copyEntries gs [d] es = Inr gs' \<and> (\<forall>r. prefix [d] r \<longrightarrow> fs' r = gs' r)))"
  using assms
proof (induction fs "[d]" es arbitrary: gs rule: copyEntries.induct)
  case (1 fs)
  then show ?case by simp
next
  case (2 fs rel rest)
  have u: "prefix [d] ([d] @ rel)" by simp
  note m = mkdirAll_agree [OF "2.prems" u]
  show ?case
  proof (cases "mkdirAll fs ([d] @ rel)")
    case (Inl e)
    with m have "mkdirAll gs ([d] @ rel) = Inl e" by blast
    with Inl show ?thesis by simp
  next
    case (Inr fs1)
    with m obtain gs1 where g: "mkdirAll gs ([d] @ rel) = Inr gs1"
      and a: "\<forall>r. prefix [d] r \<longrightarrow> fs1 r = gs1 r" by blast
    from "2.hyps" [OF Inr a] Inr g show ?thesis by simp
  qed
next
  case (3 fs rel data rest)
  have t: "fs ([d] @ rel) = gs ([d] @ rel)" using "3.prems" by simp
  show ?case
  proof (cases "fs ([d] @ rel) \<noteq> None")
    case True
    with t show ?thesis by simp
  next
    case False
    note none = this
    show ?thesis
    proof (cases "rel = [] \<or> \<not> isDir fs (butlast ([d] @ rel))")
      case True
      then have "rel = [] \<or> \<not> isDir gs (butlast ([d] @ rel))"
        using "3.prems" by (cases "rel = []") (auto simp: isDir_def butlast_append)
      with True none t show ?thesis by auto
    next
      case False
      then have g: "\<not> (rel = [] \<or> \<not> isDir gs (butlast ([d] @ rel)))"
        using "3.prems" by (cases "rel = []") (auto simp: isDir_def butlast_append)
      have a: "\<forall>r. prefix [d] r \<longrightarrow> (fs([d] @ rel := Some (File data))) r = (gs([d] @ rel := Some (File data))) r"
        using "3.prems" by simp
      have eqf: "copyEntries fs [d] ((rel, File data) # rest)
          = copyEntries (fs([d] @ rel := Some (File data))) [d] rest"
        using none False by auto
      have eqg: "copyEntries gs [d] ((rel, File data) # rest)
          = copyEntries (gs([d] @ rel := Some (File data))) [d] rest"
        using none t g by auto
      show ?thesis
        unfolding eqf eqg by (rule "3.hyps" [OF none False a])
    qed
  qed
qed

lemma reset_steps:
  "reset A fs =
     (case mkdirAll (\<lambda>q. if prefix [''docs''] q then None else fs q) [''docs'', ''blog''] of
        Inl err \<Rightarrow> Inl (Errorf ''error creating docs/blog folder: %w'' [] err)
      | Inr fs2 \<Rightarrow>
     (case mkdirAll fs2 [''docs'', ''tagged''] of
        Inl err \<Rightarrow> Inl (Errorf ''error creating docs/tagged folder: %w'' [] err)
      | Inr fs3 \<Rightarrow>
     (case copyEntries fs3 [''docs''] (([], Dir) # A) of
        Inl err \<Rightarrow> Inl (Errorf ''error copying docs/assets folder: %w'' [] err)
      | Inr fs4 \<Rightarrow> Inr fs4)))"
  by (simp add: reset_def os_RemoveAll_def os_MkdirAll_def os_CopyFS_def
      splitPath_SITE splitPath_blog splitPath_tagged cong: sum.case_cong)

lemma reset_outside:
  assumes "reset A fs = Inr fs'" and "\<not> prefix [''docs''] r"
  shows "fs' r = fs r"
proof -
  let ?c = "\<lambda>q. if prefix [''docs''] q then None else fs q"
  from assms(1) obtain fs2 fs3 where
    m1: "mkdirAll ?c [''docs'', ''blog''] = Inr fs2" and
    m2: "mkdirAll fs2 [''docs'', ''tagged''] = Inr fs3" and
    c: "copyEntries fs3 [''docs''] (([], Dir) # A) = Inr fs'"
    unfolding reset_steps by (auto split: sum.splits)
  have "fs' r = fs3 r" by (rule copyEntries_outside [OF c assms(2)])
  also have "\<dots> = fs2 r" by (rule mkdirAll_outside [OF m2 _ assms(2)]) simp
  also have "\<dots> = ?c r" by (rule mkdirAll_outside [OF m1 _ assms(2)]) simp
  also have "\<dots> = fs r" using assms(2) by simp
  finally show ?thesis .
qed

lemma reset_agree:
  assumes "reset A fs = Inr fs'"
  shows "\<exists>gs'. reset A gs = Inr gs' \<and> (\<forall>r. prefix [''docs''] r \<longrightarrow> gs' r = fs' r)"
proof -
  let ?c = "\<lambda>q. if prefix [''docs''] q then None else fs q"
  let ?d = "\<lambda>q. if prefix [''docs''] q then None else gs q"
  from assms(1) obtain fs2 fs3 where
    m1: "mkdirAll ?c [''docs'', ''blog''] = Inr fs2" and
    m2: "mkdirAll fs2 [''docs'', ''tagged''] = Inr fs3" and
    c: "copyEntries fs3 [''docs''] (([], Dir) # A) = Inr fs'"
    unfolding reset_steps by (auto split: sum.splits)
  have a0: "\<forall>r. prefix [''docs''] r \<longrightarrow> ?c r = ?d r" by simp
  from mkdirAll_agree [OF a0, of "[''docs'', ''blog'']"] m1
  obtain gs2 where g1: "mkdirAll ?d [''docs'', ''blog''] = Inr gs2"
    and a1: "\<forall>r. prefix [''docs''] r \<longrightarrow> fs2 r = gs2 r" by auto
  from mkdirAll_agree [OF a1, of "[''docs'', ''tagged'']"] m2
  obtain gs3 where g2: "mkdirAll gs2 [''docs'', ''tagged''] = Inr gs3"
    and a2: "\<forall>r. prefix [''docs''] r \<longrightarrow> fs3 r = gs3 r" by auto
  from copyEntries_agree [OF a2, of "([], Dir) # A"] c
  obtain gs4 where g3: "copyEntries gs3 [''docs''] (([], Dir) # A) = Inr gs4"
    and a3: "\<forall>r. prefix [''docs''] r \<longrightarrow> fs' r = gs4 r" by auto
  have "reset A gs = Inr gs4"
    unfolding reset_steps by (simp only: g1 g2 g3 sum.case)
  with a3 show ?thesis by auto
qed

lemma reset_again:
  assumes "reset A fs = Inr fs'"
  shows "reset A fs' = Inr fs'"
proof -
  have "(\<lambda>q. if prefix [''docs''] q then None else fs' q) = (\<lambda>q. if prefix [''docs''] q then None else fs q)"
    using reset_outside [OF assms] by auto
  then have "reset A fs' = reset A fs"
    unfolding reset_steps by simp
  with assms show ?thesis by simp
qed

text \<open>
  Claim C8. When \<open>reset\<close> succeeds, running it again on the result succeeds and changes
  nothing. Outside the site directory nothing is touched, and inside it the result does
  not depend on what was there before: from any other store \<open>reset\<close> succeeds too and
  produces the same output tree, so no file of a prior run survives.
\<close>

theorem reset_idempotent:
  assumes "reset assetsEFS fs = Inr fs'"
  shows "reset assetsEFS fs' = Inr fs' \<and>
         (\<forall>r. \<not> prefix (splitPath SITE_DIR) r \<longrightarrow> fs' r = fs r) \<and>
         (\<forall>gs. \<exists>gs'. reset assetsEFS gs = Inr gs' \<and>
                  (\<forall>r. prefix (splitPath SITE_DIR) r \<longrightarrow> gs' r = fs' r))"
  unfolding splitPath_SITE
  using reset_again [OF assms] reset_outside [OF assms] reset_agree [OF assms] by blast

theorem reset_idempotent_witness:
  "\<exists>fs'. reset [([''assets''], Dir), ([''assets'', ''style.css''], File ''body{}'')]
            (Map.empty([''docs'', ''stale.html''] \<mapsto> File ''old'')) = Inr fs' \<and>
         reset [([''assets''], Dir), ([''assets'', ''style.css''], File ''body{}'')] fs' = Inr fs' \<and>
         fs' [''docs'', ''stale.html''] = None \<and>
         fs' [''docs'', ''blog''] = Some Dir \<and>
         fs' [''docs'', ''tagged''] = Some Dir \<and>
         fs' [''docs'', ''assets'', ''style.css''] = Some (File ''body{}'')"
proof -
  let ?A = "[([''assets''], Dir), ([''assets'', ''style.css''], File ''body{}'')]"
  let ?fs = "Map.empty([''docs'', ''stale.html''] \<mapsto> File ''old'')"
  obtain fs' where r: "reset ?A ?fs = Inr fs'"
    unfolding reset_steps
    by (simp add: mkdirAll_def isRegular_def isDir_def)
  have v: "fs' [''docs'', ''stale.html''] = None \<and>
         fs' [''docs'', ''blog''] = Some Dir \<and>
         fs' [''docs'', ''tagged''] = Some Dir \<and>
         fs' [''docs'', ''assets'', ''style.css''] = Some (File ''body{}'')"
    using r unfolding reset_steps
    by (auto simp: mkdirAll_def isRegular_def isDir_def)
  from reset_idempotent [OF r] have "reset ?A fs' = Inr fs'" by blast
  with r v show ?thesis by blast
qed

section \<open>Totality of the decode\<close>

text \<open>
  Claim C9, as stated, fails: a file of one line of \<open>MaxScanTokenSize\<close> bytes makes the scan
  itself fail, and the error, \<^verbatim>\<open>bufio.ErrTooLong\<close>, is not an I/O error.
\<close>

theorem readFull_total_counterexample:
  "readFull (Map.empty([''test.md''] \<mapsto> File longLine)) ''test.md''
     = Inl (Errorf ''error post reading file: %w'' [] ErrTooLong) \<and>
   \<not> isIOError (Errorf ''error post reading file: %w'' [] ErrTooLong)"
proof -
  have f: "isFile (Map.empty([''test.md''] \<mapsto> File longLine)) ''test.md'' longLine"
    by (simp add: isFile_def splitPath_def)
  have r: "rawLines longLine = [longLine]"
    using longLine_facts(1,2) by (intro rawLines_last)
  have "readFull (Map.empty([''test.md''] \<mapsto> File longLine)) ''test.md''
     = Inl (Errorf ''error post reading file: %w'' [] ErrTooLong)"
    by (rule readFull_too_long [OF f, of longLine]) (simp_all add: r longLine_facts(3))
  then show ?thesis by simp
qed

text \<open>
  Claim C9, amended. On a file whose lines are all shorter than \<open>MaxScanTokenSize\<close> bytes
  the scan succeeds whatever the boundaries are, and returns the buffers of the loop; on
  a file with a longer line it fails with \<^verbatim>\<open>bufio.ErrTooLong\<close>. Every failure of \<open>readFull\<close>
  is an I/O error (open or read) or that one. When \<open>readFull\<close> succeeds and \<open>parse\<close> fails,
  the failure is the one of the JSON unmarshalling of the metadata.
\<close>

theorem readFull_failures:
  "(isFile fs p data \<longrightarrow>
      ((\<forall>l\<in>set (rawLines data). length l < MaxScanTokenSize) \<longrightarrow>
         readFull fs p = Inr (snd (readLoop (map dropCR (rawLines data)) (0, [], [])))) \<and>
      ((\<exists>l\<in>set (rawLines data). MaxScanTokenSize \<le> length l) \<longrightarrow>
         readFull fs p = Inl (Errorf ''error post reading file: %w'' [] ErrTooLong))) \<and>
   (\<forall>e. readFull fs p = Inl e \<longrightarrow> isIOError e \<or> cause e = ErrTooLong) \<and>
   (\<forall>m b e. readFull fs p = Inr (m, b) \<longrightarrow> parse dec H fs p = Inl e \<longrightarrow>
      (\<exists>err. json_Unmarshal dec m zeroPost = Inl err \<and>
             e = Errorf ''error unmarshaling metadata: %w'' [] err))"
proof (intro conjI impI allI)
  assume f: "isFile fs p data" and s: "\<forall>l\<in>set (rawLines data). length l < MaxScanTokenSize"
  show "readFull fs p = Inr (snd (readLoop (map dropCR (rawLines data)) (0, [], [])))"
    by (simp add: readFull_isFile [OF f] scanErr_short [OF s] scanTokens_short [OF s])
next
  assume f: "isFile fs p data" and "\<exists>l\<in>set (rawLines data). MaxScanTokenSize \<le> length l"
  then obtain l where "l \<in> set (rawLines data)" "MaxScanTokenSize \<le> length l" by blast
  from readFull_too_long [OF f this]
  show "readFull fs p = Inl (Errorf ''error post reading file: %w'' [] ErrTooLong)" .
next
  fix e
  assume "readFull fs p = Inl e"
  then show "isIOError e \<or> cause e = ErrTooLong"
    by (auto simp: readFull_def os_Open_def scanErr_def Let_def
        split: if_splits option.splits entry.splits prod.splits)
next
  fix m b e
  assume "readFull fs p = Inr (m, b)" and "parse dec H fs p = Inl e"
  then show "\<exists>err. json_Unmarshal dec m zeroPost = Inl err \<and>
             e = Errorf ''error unmarshaling metadata: %w'' [] err"
    by (auto simp: parse_def split: sum.splits)
qed

theorem readFull_failures_witness:
  \<open>isFile (Map.empty([''test.md''] \<mapsto> File ''------------------\<newline>{"title":"A"}\<newline>------------------\<newline>Body text\<newline>''))
     ''test.md'' ''------------------\<newline>{"title":"A"}\<newline>------------------\<newline>Body text\<newline>'' \<and>
   list_all (\<lambda>l. length l < MaxScanTokenSize)
     (rawLines ''------------------\<newline>{"title":"A"}\<newline>------------------\<newline>Body text\<newline>'') \<and>
   readFull (Map.empty([''test.md''] \<mapsto> File ''------------------\<newline>{"title":"A"}\<newline>------------------\<newline>Body text\<newline>''))
     ''test.md'' = Inr (''{"title":"A"}'', ''Body text\<newline>'')\<close>
proof -
  let ?doc = \<open>''------------------\<newline>{"title":"A"}\<newline>------------------\<newline>Body text\<newline>''\<close>
  let ?fs = "Map.empty([''test.md''] \<mapsto> File ?doc)"
  have f: "isFile ?fs ''test.md'' ?doc"
    by (simp add: isFile_def splitPath_def)
  have s: "\<forall>l\<in>set (rawLines ?doc). length l < MaxScanTokenSize"
    by (simp add: example_rawLines MaxScanTokenSize_def)
  have "readFull ?fs ''test.md'' = Inr (snd (readLoop (map dropCR (rawLines ?doc)) (0, [], [])))"
    using f s readFull_failures [of ?fs "''test.md''" ?doc] by blast
  then have \<open>readFull ?fs ''test.md'' = Inr (''{"title":"A"}'', ''Body text\<newline>'')\<close>
    by (simp add: example_rawLines dropCR_def FRONTMATTER_BOUNDARY_def)
  with f s show ?thesis
    by (simp add: list_all_iff)
qed

section \<open>Metadata lines lose their terminators, body lines get a newline back\<close>

text \<open>
  Claim C10, as stated, fails: in the document of a boundary line, one frontmatter line
  of \<open>MaxScanTokenSize\<close> bytes and a second boundary line, each ended by a newline, the
  frontmatter block is not returned as the concatenation of its lines: the scan fails with
  \<^verbatim>\<open>bufio.ErrTooLong\<close> and \<open>readFull\<close> returns no metadata at all.
\<close>

theorem readFull_metadata_lines_joined_counterexample:
  "readFull (Map.empty([''test.md''] \<mapsto>
       File (FRONTMATTER_BOUNDARY @ [CHR 0x0A] @ concat (map (\<lambda>l. l @ [CHR 0x0A]) [longLine]) @
             FRONTMATTER_BOUNDARY @ [CHR 0x0A] @ concat (map (\<lambda>l. l @ [CHR 0x0A]) []))))
     ''test.md'' = Inl (Errorf ''error post reading file: %w'' [] ErrTooLong) \<and>
   CHR 0x0A \<notin> set longLine \<and> dropCR longLine \<noteq> FRONTMATTER_BOUNDARY"
proof -
  let ?B = FRONTMATTER_BOUNDARY
  define doc where "doc = ?B @ [CHR 0x0A] @ concat (map (\<lambda>l. l @ [CHR 0x0A]) [longLine]) @
             ?B @ [CHR 0x0A] @ concat (map (\<lambda>l. l @ [CHR 0x0A]) [])"
  define fs where "fs = Map.empty([''test.md''] \<mapsto> File doc)"
  have f: "isFile fs ''test.md'' doc"
    by (simp add: isFile_def splitPath_def fs_def)
  have doc: "doc = concat (map (\<lambda>l. l @ [CHR 0x0A]) ([?B] @ [longLine] @ [?B])) @ []"
    by (simp add: doc_def)
  have nl: "\<forall>l\<in>set ([?B] @ [longLine] @ [?B]). CHR 0x0A \<notin> set l"
    using longLine_facts(2) boundary_plain(1) by auto
  have raw: "rawLines doc = [?B] @ [longLine] @ [?B]"
    unfolding doc using rawLines_terminated [OF nl, of "[]"] by (simp add: rawLines_Nil)
  have r: "readFull fs ''test.md'' = Inl (Errorf ''error post reading file: %w'' [] ErrTooLong)"
    by (rule readFull_too_long [OF f, of longLine]) (simp_all add: raw longLine_facts(3))
  from r longLine_facts(2) longLine_not_boundary show ?thesis
    unfolding fs_def doc_def by blast
qed

text \<open>
  Claim C10, amended. Take a document made of a boundary line, frontmatter lines \<open>ms\<close>, a
  second boundary line and body lines \<open>bs\<close>, every line ended by a newline and shorter
  than \<open>MaxScanTokenSize\<close> bytes, no frontmatter line being a boundary itself. The
  metadata returned is the concatenation of the frontmatter lines, each with its
  terminator stripped (the newline, and the carriage return before it if there is one)
  and nothing put between them; the body is the body lines, each with one newline
  restored. So when no frontmatter line holds a carriage return, the metadata is the
  frontmatter bytes with the newlines removed.
\<close>

theorem readFull_metadata_lines_joined:
  assumes isf: "isFile fs p (FRONTMATTER_BOUNDARY @ [CHR 0x0A] @ concat (map (\<lambda>l. l @ [CHR 0x0A]) ms) @
                   FRONTMATTER_BOUNDARY @ [CHR 0x0A] @ concat (map (\<lambda>l. l @ [CHR 0x0A]) bs))"
    and lines: "\<forall>l\<in>set (ms @ bs). CHR 0x0A \<notin> set l \<and> length l < MaxScanTokenSize"
    and inner: "\<forall>l\<in>set ms. dropCR l \<noteq> FRONTMATTER_BOUNDARY"
  shows "readFull fs p = Inr (concat (map dropCR ms), concat (map (\<lambda>l. dropCR l @ [CHR 0x0A]) bs)) \<and>
         ((\<forall>l\<in>set ms. CHR 0x0D \<notin> set l) \<longrightarrow>
            concat (map dropCR ms) = filter (\<lambda>c. c \<noteq> CHR 0x0A) (concat (map (\<lambda>l. l @ [CHR 0x0A]) ms)))"
proof -
  let ?B = FRONTMATTER_BOUNDARY
  define doc where "doc = ?B @ [CHR 0x0A] @ concat (map (\<lambda>l. l @ [CHR 0x0A]) ms) @
                   ?B @ [CHR 0x0A] @ concat (map (\<lambda>l. l @ [CHR 0x0A]) bs)"
  have isf': "isFile fs p doc"
    using isf by (simp only: doc_def)
  have doc: "doc = concat (map (\<lambda>l. l @ [CHR 0x0A]) ([?B] @ ms @ [?B] @ bs)) @ []"
    by (simp add: doc_def)
  have nl: "\<forall>l\<in>set ([?B] @ ms @ [?B] @ bs). CHR 0x0A \<notin> set l"
    using lines boundary_plain(1) by auto
  have raw: "rawLines doc = [?B] @ ms @ [?B] @ bs"
    unfolding doc using rawLines_terminated [OF nl, of "[]"] by (simp add: rawLines_Nil)
  have short: "\<forall>l\<in>set (rawLines doc). length l < MaxScanTokenSize"
    unfolding raw using lines boundary_plain(2) by auto
  have toks: "scanTokens doc = [?B] @ map dropCR ms @ [?B] @ map dropCR bs"
    by (simp only: scanTokens_short [OF short] raw map_append list.map boundary_plain(3))
  have noB: "?B \<notin> set (map dropCR ms)"
    using inner by auto
  have loop: "readLoop (scanTokens doc) (0, [], []) =
      (2, concat (map dropCR ms), concat (map (\<lambda>l. l @ [CHR 0x0A]) (map dropCR bs)))"
    unfolding toks readLoop_append
    using readLoop_metadata [OF _ noB, of "Suc 0" "[]" "[]"]
      readLoop_body [of "Suc (Suc 0)" "map dropCR bs" "concat (map dropCR ms)" "[]"]
    by simp
  have r: "readFull fs p = Inr (concat (map dropCR ms), concat (map (\<lambda>l. dropCR l @ [CHR 0x0A]) bs))"
    by (simp add: readFull_isFile [OF isf'] scanErr_short [OF short] loop comp_def)
  have c: "(\<forall>l\<in>set ms. CHR 0x0D \<notin> set l) \<longrightarrow>
            concat (map dropCR ms) = filter (\<lambda>c. c \<noteq> CHR 0x0A) (concat (map (\<lambda>l. l @ [CHR 0x0A]) ms))"
    using lines concat_dropCR_no_CR [of ms] by auto
  from r c show ?thesis by (rule conjI)
qed

theorem readFull_metadata_lines_joined_witness:
  \<open>readFull (Map.empty([''test.md''] \<mapsto>
       File ''------------------\<newline>{\<newline>"title": "A"\<newline>}\<newline>------------------\<newline>Body\<newline>text\<newline>''))
     ''test.md'' = Inr (''{"title": "A"}'', ''Body\<newline>text\<newline>'')\<close>
proof -
  have f: \<open>isFile (Map.empty([''test.md''] \<mapsto>
       File ''------------------\<newline>{\<newline>"title": "A"\<newline>}\<newline>------------------\<newline>Body\<newline>text\<newline>''))
     ''test.md''
     (FRONTMATTER_BOUNDARY @ [CHR 0x0A] @ concat (map (\<lambda>l. l @ [CHR 0x0A]) [''{'', ''"title": "A"'', ''}'']) @
      FRONTMATTER_BOUNDARY @ [CHR 0x0A] @ concat (map (\<lambda>l. l @ [CHR 0x0A]) [''Body'', ''text'']))\<close>
    by (simp add: isFile_def splitPath_def FRONTMATTER_BOUNDARY_def)
  have l: \<open>\<forall>l\<in>set ([''{'', ''"title": "A"'', ''}''] @ [''Body'', ''text'']).
             CHR 0x0A \<notin> set l \<and> length l < MaxScanTokenSize\<close>
    by (simp add: MaxScanTokenSize_def)
  have i: \<open>\<forall>l\<in>set [''{'', ''"title": "A"'', ''}'']. dropCR l \<noteq> FRONTMATTER_BOUNDARY\<close>
    by (simp add: dropCR_def FRONTMATTER_BOUNDARY_def)
  show ?thesis
    using readFull_metadata_lines_joined [OF f l i] by (simp add: dropCR_def)
qed

end
